theory Spec2Isabelle
  imports Complex_Main "HOL-Library.Sublist"
begin

section \<open>The query pipeline of FilterService\<close>

text \<open>
  \<^verbatim>\<open>FilterService\<close> is the class that the repositories import from
  \<^verbatim>\<open>services/filter.service\<close>; in the source tree it follows \<^verbatim>\<open>OrdersService\<close> in
  \<^verbatim>\<open>admin-api/src/services/orders.service.ts\<close>.
  The development embeds its four stages:
  \<^verbatim>\<open>applyDynamoDBFilters\<close>, \<^verbatim>\<open>applySorting\<close>, \<^verbatim>\<open>applyPagination\<close> and
  \<^verbatim>\<open>processQuery\<close>, together with \<^verbatim>\<open>convertFilterValue\<close>. Everything the
  service calls but does not define (string collation, number and date parsing, URI
  decoding, the store's evaluation of a scan condition, the properties that a record
  object inherits) is collected in one record of platform functions, and the theorems
  hold for every such record unless a hypothesis says otherwise. The one exception is
  \<^verbatim>\<open>Array.prototype.sort\<close>, which is embedded as the engine implements it, since the
  order it returns for a comparator that is not transitive depends on the algorithm.
\<close>

subsection \<open>Values, records and errors\<close>

text \<open>
  A JavaScript number is a finite value, an infinity or NaN. Finite values are rationals
  here: the pipeline only subtracts two numbers and looks at the sign of the difference,
  and on finite doubles that sign is the sign of the exact difference.
\<close>

datatype jsnum = Fin rat | PosInf | NegInf | NaN

text \<open>
  The value of a record attribute. A date carries its time value, \<open>None\<close> for an
  invalid date. \<open>VOther\<close> stands for every other value (array, object, function, set); it carries
  the text that \<^verbatim>\<open>String(v)\<close> gives for it.
\<close>

datatype jsval =
    VUndefined
  | VNull
  | VStr string
  | VNum jsnum
  | VBool bool
  | VDate "int option"
  | VOther string

type_synonym item = "(string \<times> jsval) list"

datatype error = TypeError | URIError | StoreFailure string

text \<open>
  An attribute of a record as it is stored: a record without the attribute has
  \<^verbatim>\<open>undefined\<close> there.
\<close>

definition attribute :: "item \<Rightarrow> string \<Rightarrow> jsval" where
  "attribute r f = (case map_of r f of None \<Rightarrow> VUndefined | Some v \<Rightarrow> v)"

text \<open>The test \<^verbatim>\<open>v === null || v === undefined\<close>.\<close>

definition nullish :: "jsval \<Rightarrow> bool" where
  "nullish v = (v = VNull \<or> v = VUndefined)"

subsection \<open>Scan conditions and the platform\<close>

text \<open>
  One condition of a scan, as the query builder records it: the attribute named by
  \<^verbatim>\<open>where(field)\<close> and the comparison chained after it, with its operands.
\<close>

datatype cond =
    CEq string jsval
  | CNe string jsval
  | CContains string jsval
  | CBetween string jsval jsval
  | CGt string jsval
  | CGe string jsval
  | CLt string jsval
  | CLe string jsval
  | CNull string
  | CNotNull string

record platform =
  localeCompare :: "string \<Rightarrow> string \<Rightarrow> int"
  numberToString :: "jsnum \<Rightarrow> string"
  dateToString :: "int option \<Rightarrow> string"
  toNumber :: "string \<Rightarrow> jsnum"
  parseDate :: "string \<Rightarrow> int option"
  decodeURIComponent :: "string \<Rightarrow> string option"
  holds :: "cond \<Rightarrow> item \<Rightarrow> bool"
  inherited :: "string \<Rightarrow> jsval option"

text \<open>
  \<^verbatim>\<open>a[field]\<close> on a record object: the record's own attribute when it has one, else
  the property of that name that the object inherits from its prototype chain
  (\<open>inherited\<close>: \<^verbatim>\<open>constructor\<close> and \<^verbatim>\<open>toString\<close> of \<^verbatim>\<open>Object.prototype\<close>, for
  instance), else \<^verbatim>\<open>undefined\<close>.
\<close>

definition getField :: "platform \<Rightarrow> item \<Rightarrow> string \<Rightarrow> jsval" where
  "getField P r f =
     (case map_of r f of
        Some v \<Rightarrow> v
      | None \<Rightarrow> (case inherited P f of Some v \<Rightarrow> v | None \<Rightarrow> VUndefined))"

subsection \<open>Strings\<close>

text \<open>
  \<^verbatim>\<open>s.split(',')\<close> and \<^verbatim>\<open>s.split('||')\<close>: the pieces between the separators, one
  piece for a string without separator (also for the empty string).
\<close>

fun split_comma :: "string \<Rightarrow> string \<Rightarrow> string list" where
  "split_comma acc [] = [rev acc]"
| "split_comma acc (c # cs) =
     (if c = CHR '','' then rev acc # split_comma [] cs else split_comma (c # acc) cs)"

fun split_bars :: "string \<Rightarrow> string \<Rightarrow> string list" where
  "split_bars acc [] = [rev acc]"
| "split_bars acc [c] = [rev (c # acc)]"
| "split_bars acc (c # d # cs) =
     (if c = CHR ''|'' \<and> d = CHR ''|'' then rev acc # split_bars [] cs
      else split_bars (c # acc) (d # cs))"

text \<open>The i-th element of a destructured array: \<^verbatim>\<open>undefined\<close> past the end.\<close>

definition nth_opt :: "'a list \<Rightarrow> nat \<Rightarrow> 'a option" where
  "nth_opt xs i = (if i < length xs then Some (xs ! i) else None)"

text \<open>Case mapping of the ASCII letters.\<close>

definition toUpperChar :: "char \<Rightarrow> char" where
  "toUpperChar c =
     (let n = (of_char c :: nat) in if 97 \<le> n \<and> n \<le> 122 then char_of (n - 32) else c)"

definition toLowerChar :: "char \<Rightarrow> char" where
  "toLowerChar c =
     (let n = (of_char c :: nat) in if 65 \<le> n \<and> n \<le> 90 then char_of (n + 32) else c)"

definition toUpperCase :: "string \<Rightarrow> string" where
  "toUpperCase s = map toUpperChar s"

definition toLowerCase :: "string \<Rightarrow> string" where
  "toLowerCase s = map toLowerChar s"

subsection \<open>Array.prototype.sort\<close>

text \<open>
  The sort of the engine that runs the service (V8, the engine of Node.js), for an array
  of records: objects, so there are no holes and no \<^verbatim>\<open>undefined\<close> elements to set
  aside first. The engine reads the comparator only through the test \<^verbatim>\<open>order < 0\<close>,
  where a NaN result counts as 0; \<open>lt a b\<close> below is that test on \<^verbatim>\<open>comparefn(a, b)\<close>.
  The engine sorts in place, on index ranges of one work array. Here a range is the list
  of its elements, and the stack of pending runs is the list of the runs, which lie side
  by side in the array; the array is their concatenation.
\<close>

fun isNegative :: "jsnum \<Rightarrow> bool" where
  "isNegative (Fin r) = (r < 0)"
| "isNegative NegInf = True"
| "isNegative PosInf = False"
| "isNegative NaN = False"

text \<open>
  \<^verbatim>\<open>CountAndMakeRun\<close>: the run at the front of the range, and the rest of the range.
  The first two elements decide whether the run is descending; it goes on while each
  element compares to its predecessor the same way, and a descending run is reversed.
\<close>

fun run_length :: "('a \<Rightarrow> 'a \<Rightarrow> bool) \<Rightarrow> bool \<Rightarrow> 'a \<Rightarrow> 'a list \<Rightarrow> nat" where
  "run_length lt desc prev [] = 0"
| "run_length lt desc prev (c # cs) =
     (if lt c prev = desc then Suc (run_length lt desc c cs) else 0)"

fun CountAndMakeRun :: "('a \<Rightarrow> 'a \<Rightarrow> bool) \<Rightarrow> 'a list \<Rightarrow> 'a list \<times> 'a list" where
  "CountAndMakeRun lt (x0 # x1 # xs) =
     (let desc = lt x1 x0;
          n = run_length lt desc x1 xs;
          run = x0 # x1 # take n xs
      in (if desc then rev run else run, drop n xs))"
| "CountAndMakeRun lt xs = (xs, [])"

text \<open>
  The binary search that ends \<^verbatim>\<open>BinaryInsertionSort\<close>, \<^verbatim>\<open>GallopLeft\<close> and
  \<^verbatim>\<open>GallopRight\<close>: \<open>goLeft mid\<close> is the test on the middle element that moves the right
  bound.
\<close>

function bsearch :: "(nat \<Rightarrow> bool) \<Rightarrow> nat \<Rightarrow> nat \<Rightarrow> nat" where
  "bsearch goLeft left right =
     (if left < right then
        (let mid = left + (right - left) div 2
         in if goLeft mid then bsearch goLeft left mid
            else bsearch goLeft (mid + 1) right)
      else left)"
  by pat_completeness auto
termination
  by (relation "measure (\<lambda>(goLeft, left, right). right - left)") auto

declare bsearch.simps [simp del]

text \<open>
  \<^verbatim>\<open>BinaryInsertionSort\<close>: every element of \<open>rest\<close> in turn is put into the sorted
  front, to the right of the elements it is not less than.
\<close>

fun BinaryInsertionSort :: "('a \<Rightarrow> 'a \<Rightarrow> bool) \<Rightarrow> 'a list \<Rightarrow> 'a list \<Rightarrow> 'a list" where
  "BinaryInsertionSort lt front [] = front"
| "BinaryInsertionSort lt front (pivot # rest) =
     (let left = bsearch (\<lambda>mid. lt pivot (front ! mid)) 0 (length front)
      in BinaryInsertionSort lt (take left front @ pivot # drop left front) rest)"

text \<open>
  The galloping loop of \<^verbatim>\<open>GallopLeft\<close> and \<^verbatim>\<open>GallopRight\<close>: the offset from the hint
  grows as 1, 3, 7, ... while the test \<open>goOn\<close> holds and the offset is below \<open>maxOfs\<close>.
  The result is the last offset that passed and the offset that stopped the loop.
  \<^verbatim>\<open>GallopLeft\<close> returns the position in \<open>xs\<close> before which \<open>key\<close> belongs, left of
  the elements it is not greater than; \<^verbatim>\<open>GallopRight\<close> the position right of the
  elements it is not less than.
\<close>

function gallop :: "(nat \<Rightarrow> bool) \<Rightarrow> nat \<Rightarrow> nat \<Rightarrow> nat \<Rightarrow> nat \<times> nat" where
  "gallop goOn maxOfs lastOfs offset =
     (if offset < maxOfs then
        (if goOn offset then gallop goOn maxOfs offset (2 * offset + 1)
         else (lastOfs, offset))
      else (lastOfs, offset))"
  by pat_completeness auto
termination
  by (relation "measure (\<lambda>(goOn, maxOfs, lastOfs, offset). maxOfs - offset)") auto

declare gallop.simps [simp del]

definition GallopLeft :: "('a \<Rightarrow> 'a \<Rightarrow> bool) \<Rightarrow> 'a \<Rightarrow> 'a list \<Rightarrow> nat \<Rightarrow> nat" where
  "GallopLeft lt key xs hint =
     (if lt (xs ! hint) key then
        (case gallop (\<lambda>ofs. lt (xs ! (hint + ofs)) key) (length xs - hint) 0 1 of
           (lastOfs, offset) \<Rightarrow>
             bsearch (\<lambda>m. \<not> lt (xs ! m) key)
               (lastOfs + hint + 1) (min offset (length xs - hint) + hint))
      else
        (case gallop (\<lambda>ofs. \<not> lt (xs ! (hint - ofs)) key) (hint + 1) 0 1 of
           (lastOfs, offset) \<Rightarrow>
             bsearch (\<lambda>m. \<not> lt (xs ! m) key)
               (hint + 1 - min offset (hint + 1)) (hint - lastOfs)))"

definition GallopRight :: "('a \<Rightarrow> 'a \<Rightarrow> bool) \<Rightarrow> 'a \<Rightarrow> 'a list \<Rightarrow> nat \<Rightarrow> nat" where
  "GallopRight lt key xs hint =
     (if lt key (xs ! hint) then
        (case gallop (\<lambda>ofs. lt key (xs ! (hint - ofs))) (hint + 1) 0 1 of
           (lastOfs, offset) \<Rightarrow>
             bsearch (\<lambda>m. lt key (xs ! m))
               (hint + 1 - min offset (hint + 1)) (hint - lastOfs))
      else
        (case gallop (\<lambda>ofs. \<not> lt key (xs ! (hint + ofs))) (length xs - hint) 0 1 of
           (lastOfs, offset) \<Rightarrow>
             bsearch (\<lambda>m. lt key (xs ! m))
               (lastOfs + hint + 1) (min offset (length xs - hint) + hint)))"

text \<open>
  \<^verbatim>\<open>MergeLow\<close> merges run A (\<open>as\<close>, copied to the temporary array) with the run B
  (\<open>bs\<close>) that follows it, from the left. \<open>lowOne\<close> is the loop that moves one element
  at a time and counts the wins of each run; when one run has won \<open>minGallop\<close> times
  in a row, \<open>lowGallop\<close> takes over and moves whole stretches found by galloping, until
  both stretches are shorter than \<^verbatim>\<open>kMinGallopWins\<close>. \<open>lowGallopStep\<close> is one round
  of the galloping loop: it either ends the merge with the output \<open>Done out\<close>, or
  has produced \<open>out\<close> and leaves the runs \<open>as'\<close> and \<open>bs'\<close> with the two win counts.
  The exits are those of the engine: \<^verbatim>\<open>Succeed\<close> copies what is left of A, and
  \<^verbatim>\<open>CopyB\<close> moves the rest of B and then the last element of A. The threshold
  \<open>minGallop\<close> is kept in the sort state from one merge to the next, so every merge
  returns it with its output. The engine enters a merge with two runs that are not
  empty, and the loops with more than one element of A left and at least one of B; the
  equations for an empty run are there to make the functions total.
\<close>

datatype 'a mergeStep = Done "'a list" | More "'a list" "'a list" "'a list" nat nat

definition kMinGallopWins :: nat where
  "kMinGallopWins = 7"

definition lowGallopStep :: "('a \<Rightarrow> 'a \<Rightarrow> bool) \<Rightarrow> 'a list \<Rightarrow> 'a list \<Rightarrow> 'a mergeStep" where
  "lowGallopStep lt as bs =
     (let nofWinsA = GallopRight lt (hd bs) as 0;
          outA = take nofWinsA as;
          as1 = drop nofWinsA as
      in if nofWinsA > 0 \<and> length as1 = 1 then Done (outA @ bs @ as1)
         else if nofWinsA > 0 \<and> as1 = [] then Done (outA @ bs)
         else
           (let b = hd bs; bs1 = tl bs
            in if bs1 = [] then Done (outA @ b # as1)
               else
                 (let nofWinsB = GallopLeft lt (hd as1) bs1 0;
                      outB = take nofWinsB bs1;
                      bs2 = drop nofWinsB bs1
                  in if nofWinsB > 0 \<and> bs2 = [] then Done (outA @ b # outB @ as1)
                     else
                       (let a = hd as1; as2 = tl as1
                        in if length as2 = 1 then Done (outA @ b # outB @ a # bs2 @ as2)
                           else More (outA @ b # outB @ [a]) as2 bs2 nofWinsA nofWinsB))))"

definition prepend :: "'a list \<Rightarrow> 'a list \<times> nat \<Rightarrow> 'a list \<times> nat" where
  "prepend out r = (out @ fst r, snd r)"

definition append_to :: "'a list \<times> nat \<Rightarrow> 'a list \<Rightarrow> 'a list \<times> nat" where
  "append_to r out = (fst r @ out, snd r)"

function lowOne :: "('a \<Rightarrow> 'a \<Rightarrow> bool) \<Rightarrow> nat \<Rightarrow> nat \<Rightarrow> nat \<Rightarrow> 'a list \<Rightarrow> 'a list \<Rightarrow> 'a list \<times> nat"
  and lowGallop :: "('a \<Rightarrow> 'a \<Rightarrow> bool) \<Rightarrow> nat \<Rightarrow> 'a list \<Rightarrow> 'a list \<Rightarrow> 'a list \<times> nat" where
  "lowOne lt minGallop nofWinsA nofWinsB [] bs = (bs, minGallop)"
| "lowOne lt minGallop nofWinsA nofWinsB (a # as) [] = (a # as, minGallop)"
| "lowOne lt minGallop nofWinsA nofWinsB (a # as) (b # bs) =
     (if lt b a then
        (if bs = [] then (b # a # as, minGallop)
         else if Suc nofWinsB \<ge> minGallop
           then prepend [b] (lowGallop lt (minGallop + 1) (a # as) bs)
         else prepend [b] (lowOne lt minGallop 0 (Suc nofWinsB) (a # as) bs))
      else
        (if length as = 1 then (a # b # bs @ as, minGallop)
         else if Suc nofWinsA \<ge> minGallop
           then prepend [a] (lowGallop lt (minGallop + 1) as (b # bs))
         else prepend [a] (lowOne lt minGallop (Suc nofWinsA) 0 as (b # bs))))"
| "lowGallop lt minGallop as bs =
     (let g = max 1 (minGallop - 1)
      in case lowGallopStep lt as bs of
           Done out \<Rightarrow> (out, g)
         | More out as' bs' nofWinsA nofWinsB \<Rightarrow>
             if nofWinsA \<ge> kMinGallopWins \<or> nofWinsB \<ge> kMinGallopWins
             then prepend out (lowGallop lt g as' bs')
             else prepend out (lowOne lt (g + 1) 0 0 as' bs'))"
  by pat_completeness auto
termination
proof -
  have smaller: "length as' + length bs' < length as + length bs"
    if "lowGallopStep lt as bs = More out as' bs' nA nB"
    for lt :: "'a \<Rightarrow> 'a \<Rightarrow> bool" and as bs out as' bs' nA nB
    using that by (cases bs) (auto simp: lowGallopStep_def Let_def split: if_splits)
  show ?thesis
    by (relation "measure (\<lambda>x. case x of
          Inl (lt, g, nA, nB, as, bs) \<Rightarrow> length as + length bs
        | Inr (lt, g, as, bs) \<Rightarrow> length as + length bs)")
       (auto dest: smaller)
qed

declare lowOne.simps [simp del] lowGallop.simps [simp del]

definition MergeLow :: "('a \<Rightarrow> 'a \<Rightarrow> bool) \<Rightarrow> nat \<Rightarrow> 'a list \<Rightarrow> 'a list \<Rightarrow> 'a list \<times> nat" where
  "MergeLow lt minGallop as bs =
     (case bs of
        [] \<Rightarrow> (as, minGallop)
      | b # bs1 \<Rightarrow>
          if bs1 = [] then (b # as, minGallop)
          else if length as = 1 then (b # bs1 @ as, minGallop)
          else prepend [b] (lowOne lt minGallop 0 0 as bs1))"

text \<open>
  \<^verbatim>\<open>MergeHigh\<close> is the mirror image: run B is copied to the temporary array and the
  merge fills the range from the right, the greater elements first. Its exits are
  \<^verbatim>\<open>Succeed\<close>, which copies what is left of B, and \<^verbatim>\<open>CopyA\<close>, which moves the rest of
  A and puts the first element of B in front of it.
\<close>

definition highGallopStep :: "('a \<Rightarrow> 'a \<Rightarrow> bool) \<Rightarrow> 'a list \<Rightarrow> 'a list \<Rightarrow> 'a mergeStep" where
  "highGallopStep lt as bs =
     (let k = GallopRight lt (last bs) as (length as - 1);
          nofWinsA = length as - k;
          outA = drop k as;
          as1 = take k as
      in if nofWinsA > 0 \<and> as1 = [] then Done (bs @ outA)
         else
           (let b = last bs; bs1 = butlast bs
            in if length bs1 = 1 then Done (bs1 @ as1 @ b # outA)
               else
                 (let k2 = GallopLeft lt (last as1) bs1 (length bs1 - 1);
                      nofWinsB = length bs1 - k2;
                      outB = drop k2 bs1;
                      bs2 = take k2 bs1
                  in if nofWinsB > 0 \<and> length bs2 = 1 then Done (bs2 @ as1 @ outB @ b # outA)
                     else if nofWinsB > 0 \<and> bs2 = [] then Done (as1 @ outB @ b # outA)
                     else
                       (let a = last as1; as2 = butlast as1
                        in if as2 = [] then Done (bs2 @ a # outB @ b # outA)
                           else More (a # outB @ b # outA) as2 bs2 nofWinsA nofWinsB))))"

function highOne :: "('a \<Rightarrow> 'a \<Rightarrow> bool) \<Rightarrow> nat \<Rightarrow> nat \<Rightarrow> nat \<Rightarrow> 'a list \<Rightarrow> 'a list \<Rightarrow> 'a list \<times> nat"
  and highGallop :: "('a \<Rightarrow> 'a \<Rightarrow> bool) \<Rightarrow> nat \<Rightarrow> 'a list \<Rightarrow> 'a list \<Rightarrow> 'a list \<times> nat" where
  "highOne lt minGallop nofWinsA nofWinsB as bs =
     (if as = [] \<or> bs = [] then (as @ bs, minGallop)
      else if lt (last bs) (last as) then
        (if butlast as = [] then (bs @ [last as], minGallop)
         else if Suc nofWinsA \<ge> minGallop
           then append_to (highGallop lt (minGallop + 1) (butlast as) bs) [last as]
         else append_to (highOne lt minGallop (Suc nofWinsA) 0 (butlast as) bs) [last as])
      else
        (if length (butlast bs) = 1 then (butlast bs @ as @ [last bs], minGallop)
         else if Suc nofWinsB \<ge> minGallop
           then append_to (highGallop lt (minGallop + 1) as (butlast bs)) [last bs]
         else append_to (highOne lt minGallop 0 (Suc nofWinsB) as (butlast bs)) [last bs]))"
| "highGallop lt minGallop as bs =
     (let g = max 1 (minGallop - 1)
      in case highGallopStep lt as bs of
           Done out \<Rightarrow> (out, g)
         | More out as' bs' nofWinsA nofWinsB \<Rightarrow>
             if nofWinsA \<ge> kMinGallopWins \<or> nofWinsB \<ge> kMinGallopWins
             then append_to (highGallop lt g as' bs') out
             else append_to (highOne lt (g + 1) 0 0 as' bs') out)"
  by pat_completeness auto
termination
proof -
  have smaller: "length as' + length bs' < length as + length bs"
    if step: "highGallopStep lt as bs = More out as' bs' nA nB"
    for lt :: "'a \<Rightarrow> 'a \<Rightarrow> bool" and as bs out as' bs' nA nB
  proof -
    define k where "k = GallopRight lt (last bs) as (length as - 1)"
    define k2 where "k2 = GallopLeft lt (last (take k as)) (butlast bs) (length (butlast bs) - 1)"
    from step have a: "as' = butlast (take k as)" and n: "butlast (take k as) \<noteq> []"
      and b: "bs' = take k2 (butlast bs)"
      by (auto simp: highGallopStep_def Let_def k_def k2_def split: if_splits)
    from n have "take k as \<noteq> []" by (metis butlast.simps(1))
    then have "0 < length (take k as)" by simp
    moreover have "length (take k as) \<le> length as" by simp
    ultimately have "length (butlast (take k as)) < length as"
      unfolding length_butlast by linarith
    moreover have "length (take k2 (butlast bs)) \<le> length bs" by simp
    ultimately show ?thesis unfolding a b by linarith
  qed
  show ?thesis
    by (relation "measure (\<lambda>x. case x of
          Inl (lt, g, nA, nB, as, bs) \<Rightarrow> length as + length bs
        | Inr (lt, g, as, bs) \<Rightarrow> length as + length bs)")
       (auto dest: smaller simp: less_Suc_eq_le)
qed

declare highOne.simps [simp del] highGallop.simps [simp del]

definition MergeHigh :: "('a \<Rightarrow> 'a \<Rightarrow> bool) \<Rightarrow> nat \<Rightarrow> 'a list \<Rightarrow> 'a list \<Rightarrow> 'a list \<times> nat" where
  "MergeHigh lt minGallop as bs =
     (if as = [] then (bs, minGallop)
      else if butlast as = [] then (bs @ [last as], minGallop)
      else if length bs = 1 then (bs @ butlast as @ [last as], minGallop)
      else append_to (highOne lt minGallop 0 0 (butlast as) bs) [last as])"

text \<open>
  \<^verbatim>\<open>MergeAt\<close> merges the pending runs \<open>i\<close> and \<open>i + 1\<close>. The elements of run A that are
  already in place (those not greater than the first of B) and the elements of B that
  are already in place (those not less than the last of A) are left where they are;
  what remains is merged from the left when A is the shorter run, else from the right.
\<close>

definition mergeRuns :: "('a \<Rightarrow> 'a \<Rightarrow> bool) \<Rightarrow> nat \<Rightarrow> 'a list \<Rightarrow> 'a list \<Rightarrow> 'a list \<times> nat" where
  "mergeRuns lt minGallop runA runB =
     (let k = GallopRight lt (hd runB) runA 0;
          as = drop k runA
      in if as = [] then (runA @ runB, minGallop)
         else
           (let lengthB = GallopLeft lt (last as) runB (length runB - 1);
                bs = take lengthB runB
            in if lengthB = 0 then (runA @ runB, minGallop)
               else append_to
                      (prepend (take k runA)
                         (if length as \<le> length bs then MergeLow lt minGallop as bs
                          else MergeHigh lt minGallop as bs))
                      (drop lengthB runB)))"

definition MergeAt :: "('a \<Rightarrow> 'a \<Rightarrow> bool) \<Rightarrow> 'a list list \<Rightarrow> nat \<Rightarrow> nat \<Rightarrow> 'a list list \<times> nat" where
  "MergeAt lt pendingRuns minGallop i =
     (case mergeRuns lt minGallop (pendingRuns ! i) (pendingRuns ! (i + 1)) of
        (merged, g) \<Rightarrow> (take i pendingRuns @ merged # drop (i + 2) pendingRuns, g))"

text \<open>
  \<^verbatim>\<open>MergeCollapse\<close> runs after every push of a run and merges while the lengths of the
  runs on top of the stack break the invariant; \<^verbatim>\<open>MergeForceCollapse\<close> merges at the
  end until one run is left.
\<close>

definition RunInvariantEstablished :: "'a list list \<Rightarrow> nat \<Rightarrow> bool" where
  "RunInvariantEstablished pendingRuns n =
     (if n < 2 then True
      else length (pendingRuns ! (n - 2))
             > length (pendingRuns ! (n - 1)) + length (pendingRuns ! n))"

function MergeCollapse :: "('a \<Rightarrow> 'a \<Rightarrow> bool) \<Rightarrow> 'a list list \<Rightarrow> nat \<Rightarrow> 'a list list \<times> nat" where
  "MergeCollapse lt pendingRuns minGallop =
     (if length pendingRuns > 1 then
        (let n = length pendingRuns - 2
         in if \<not> RunInvariantEstablished pendingRuns (n + 1)
               \<or> \<not> RunInvariantEstablished pendingRuns n then
              (case MergeAt lt pendingRuns minGallop
                      (if length (pendingRuns ! (n - 1)) < length (pendingRuns ! (n + 1))
                       then n - 1 else n) of
                 (p, g) \<Rightarrow> MergeCollapse lt p g)
            else if length (pendingRuns ! n) \<le> length (pendingRuns ! (n + 1)) then
              (case MergeAt lt pendingRuns minGallop n of
                 (p, g) \<Rightarrow> MergeCollapse lt p g)
            else (pendingRuns, minGallop))
      else (pendingRuns, minGallop))"
  by pat_completeness auto
termination
proof -
  have shorter: "(case MergeAt lt pendingRuns g i of (p, g') \<Rightarrow> length p) < length pendingRuns"
    if "i + 2 \<le> length pendingRuns" for lt and pendingRuns :: "'a list list" and g i
    using that by (auto simp: MergeAt_def split: prod.splits)
  show ?thesis
    by (relation "measure (\<lambda>(lt, pendingRuns, g). length pendingRuns)")
       (auto intro!: shorter)
qed

declare MergeCollapse.simps [simp del]

function MergeForceCollapse :: "('a \<Rightarrow> 'a \<Rightarrow> bool) \<Rightarrow> 'a list list \<Rightarrow> nat \<Rightarrow> 'a list list \<times> nat" where
  "MergeForceCollapse lt pendingRuns minGallop =
     (if length pendingRuns > 1 then
        (let n = length pendingRuns - 2
         in case MergeAt lt pendingRuns minGallop
                   (if n > 0 \<and> length (pendingRuns ! (n - 1)) < length (pendingRuns ! (n + 1))
                    then n - 1 else n) of
              (p, g) \<Rightarrow> MergeForceCollapse lt p g)
      else (pendingRuns, minGallop))"
  by pat_completeness auto
termination
proof -
  have shorter: "(case MergeAt lt pendingRuns g i of (p, g') \<Rightarrow> length p) < length pendingRuns"
    if "i + 2 \<le> length pendingRuns" for lt and pendingRuns :: "'a list list" and g i
    using that by (auto simp: MergeAt_def split: prod.splits)
  show ?thesis
    by (relation "measure (\<lambda>(lt, pendingRuns, g). length pendingRuns)")
       (auto intro!: shorter)
qed

declare MergeForceCollapse.simps [simp del]

text \<open>
  \<^verbatim>\<open>ComputeMinRunLength\<close>: the length itself below 64, else the six leading bits of
  the length, plus one when a lower bit is set.
\<close>

function minRunLoop :: "nat \<Rightarrow> nat \<Rightarrow> nat" where
  "minRunLoop n r = (if n \<ge> 64 then minRunLoop (n div 2) (if odd n then 1 else r) else n + r)"
  by pat_completeness auto
termination
  by (relation "measure (\<lambda>(n, r). n)") auto

declare minRunLoop.simps [simp del]

definition ComputeMinRunLength :: "nat \<Rightarrow> nat" where
  "ComputeMinRunLength n = minRunLoop n 0"

text \<open>
  The main loop of \<^verbatim>\<open>ArrayTimSortImpl\<close>: take the next run, extend a run shorter
  than the minimum by binary insertion, push it and collapse the stack, until nothing
  remains; then merge everything that is pending.
\<close>

function timLoop ::
  "('a \<Rightarrow> 'a \<Rightarrow> bool) \<Rightarrow> nat \<Rightarrow> 'a list list \<Rightarrow> nat \<Rightarrow> 'a list \<Rightarrow> 'a list list \<times> nat" where
  "timLoop lt minRunLength pendingRuns minGallop remaining =
     (if remaining = [] then (pendingRuns, minGallop)
      else
        (case CountAndMakeRun lt remaining of
           (run, rest) \<Rightarrow>
             (let extra = (if length run < minRunLength
                           then min minRunLength (length remaining) - length run else 0);
                  currentRun = (if length run < minRunLength
                                then BinaryInsertionSort lt run (take extra rest) else run)
              in case MergeCollapse lt (pendingRuns @ [currentRun]) minGallop of
                   (p, g) \<Rightarrow> timLoop lt minRunLength p g (drop extra rest))))"
  by pat_completeness auto
termination
proof -
  have sizes: "length rest < length xs"
    if "(run, rest) = CountAndMakeRun lt xs" and "xs \<noteq> []"
    for lt :: "'a \<Rightarrow> 'a \<Rightarrow> bool" and xs run rest
  proof -
    have "length run + length rest = length xs \<and> run \<noteq> []"
      using that(2) that(1) [symmetric]
      by (cases "(lt, xs)" rule: CountAndMakeRun.cases) (auto simp: Let_def split: if_splits)
    then show ?thesis by (cases run) auto
  qed
  show ?thesis
  proof (relation "measure (\<lambda>(lt, minRunLength, pendingRuns, g, remaining). length remaining)",
      goal_cases)
    case 1
    show ?case by simp
  next
    case 2
    from sizes [OF 2(2) 2(1)] show ?case by auto
  qed
qed

declare timLoop.simps [simp del]

definition ArrayTimSort :: "('a \<Rightarrow> 'a \<Rightarrow> bool) \<Rightarrow> 'a list \<Rightarrow> 'a list" where
  "ArrayTimSort lt xs =
     (if length xs < 2 then xs
      else
        (case timLoop lt (ComputeMinRunLength (length xs)) [] kMinGallopWins xs of
           (pendingRuns, g) \<Rightarrow> concat (fst (MergeForceCollapse lt pendingRuns g))))"

definition js_sort :: "('a \<Rightarrow> 'a \<Rightarrow> jsnum) \<Rightarrow> 'a list \<Rightarrow> 'a list" where
  "js_sort comparefn xs = ArrayTimSort (\<lambda>a b. isNegative (comparefn a b)) xs"

subsection \<open>applySorting\<close>

text \<open>\<^verbatim>\<open>String(v)\<close>, \<^verbatim>\<open>d.getTime()\<close> and the subtraction of two numbers.\<close>

fun toString :: "platform \<Rightarrow> jsval \<Rightarrow> string" where
  "toString P VUndefined = ''undefined''"
| "toString P VNull = ''null''"
| "toString P (VStr s) = s"
| "toString P (VNum n) = numberToString P n"
| "toString P (VBool b) = (if b then ''true'' else ''false'')"
| "toString P (VDate d) = dateToString P d"
| "toString P (VOther s) = s"

fun getTime :: "int option \<Rightarrow> jsnum" where
  "getTime None = NaN"
| "getTime (Some t) = Fin (of_int t)"

fun num_sub :: "jsnum \<Rightarrow> jsnum \<Rightarrow> jsnum" where
  "num_sub (Fin a) (Fin b) = Fin (a - b)"
| "num_sub NaN y = NaN"
| "num_sub x NaN = NaN"
| "num_sub PosInf PosInf = NaN"
| "num_sub NegInf NegInf = NaN"
| "num_sub PosInf y = PosInf"
| "num_sub NegInf y = NegInf"
| "num_sub (Fin a) PosInf = NegInf"
| "num_sub (Fin a) NegInf = PosInf"

text \<open>
  The comparator passed to \<^verbatim>\<open>sort\<close>, on the two values \<^verbatim>\<open>a[sortField]\<close> and
  \<^verbatim>\<open>b[sortField]\<close>. The equations are tried in the order of the source's tests: a
  null or missing first value gives 1 whatever the second is, then a null or missing
  second value gives -1, then two strings, two numbers, two dates, and last the
  comparison of the \<^verbatim>\<open>String\<close> images.
\<close>

fun comparator :: "platform \<Rightarrow> bool \<Rightarrow> jsval \<Rightarrow> jsval \<Rightarrow> jsnum" where
  "comparator P isDesc VNull bValue = Fin 1"
| "comparator P isDesc VUndefined bValue = Fin 1"
| "comparator P isDesc aValue VNull = Fin (- 1)"
| "comparator P isDesc aValue VUndefined = Fin (- 1)"
| "comparator P isDesc (VStr aValue) (VStr bValue) =
     Fin (of_int (if isDesc then localeCompare P bValue aValue
                  else localeCompare P aValue bValue))"
| "comparator P isDesc (VNum aValue) (VNum bValue) =
     (if isDesc then num_sub bValue aValue else num_sub aValue bValue)"
| "comparator P isDesc (VDate aValue) (VDate bValue) =
     (if isDesc then num_sub (getTime bValue) (getTime aValue)
      else num_sub (getTime aValue) (getTime bValue))"
| "comparator P isDesc aValue bValue =
     (let aStr = toString P aValue; bStr = toString P bValue
      in Fin (of_int (if isDesc then localeCompare P bStr aStr
                      else localeCompare P aStr bStr)))"

text \<open>
  The sort string is split at the commas; the first piece is the field and the second,
  when there is one, the direction. \<^verbatim>\<open>split\<close> never returns an empty array, so the
  first case below is never taken.
\<close>

definition sortField :: "string \<Rightarrow> string" where
  "sortField sortSpec = (case split_comma [] sortSpec of [] \<Rightarrow> [] | f # ds \<Rightarrow> f)"

definition isDesc :: "string \<Rightarrow> bool" where
  "isDesc sortSpec =
     (case nth_opt (split_comma [] sortSpec) 1 of
        None \<Rightarrow> False
      | Some sortDirection \<Rightarrow> toUpperCase sortDirection = ''DESC'')"

definition applySorting :: "platform \<Rightarrow> item list \<Rightarrow> string \<Rightarrow> item list" where
  "applySorting P items sortSpec =
     (if sortSpec = [] then items
      else js_sort (\<lambda>a b. comparator P (isDesc sortSpec)
                               (getField P a (sortField sortSpec))
                               (getField P b (sortField sortSpec))) items)"

subsection \<open>convertFilterValue\<close>

text \<open>
  The value of a filter is the third piece of the filter string, \<^verbatim>\<open>undefined\<close>
  (\<open>None\<close>) when the string has fewer than three pieces. \<^verbatim>\<open>Number(undefined)\<close> is
  NaN, \<^verbatim>\<open>new Date(undefined)\<close> is an invalid date, and the \<^verbatim>\<open>Boolean\<close> branch calls
  \<^verbatim>\<open>toLowerCase\<close> on the value, which throws a TypeError on \<^verbatim>\<open>undefined\<close>.
\<close>

type_synonym fieldTypes = "string \<Rightarrow> string option"

definition convertFilterValue ::
  "platform \<Rightarrow> string \<Rightarrow> string option \<Rightarrow> fieldTypes \<Rightarrow> error + jsval" where
  "convertFilterValue P field val fieldTypes =
     (let fieldType = fieldTypes field
      in if fieldType = Some ''Number'' then
           Inr (VNum (case val of None \<Rightarrow> NaN | Some v \<Rightarrow> toNumber P v))
         else if fieldType = Some ''Date'' then
           Inr (VDate (case val of None \<Rightarrow> None | Some v \<Rightarrow> parseDate P v))
         else if fieldType = Some ''Boolean'' then
           (case val of None \<Rightarrow> Inl TypeError
            | Some v \<Rightarrow> Inr (VBool (toLowerCase v = ''true'')))
         else
           Inr (case val of None \<Rightarrow> VUndefined | Some v \<Rightarrow> VStr v))"

subsection \<open>The store and its scan query\<close>

text \<open>
  The model behind a repository: the items of its table, and the error with which a
  scan is rejected when the store is out of order. A scan query (\<^verbatim>\<open>model.scan()\<close>)
  remembers the model it was made from and the conditions chained onto it so far
  (\<^verbatim>\<open>scanQuery.where(field).eq(value)\<close> and the like).
\<close>

record model =
  contents :: "item list"
  failure :: "error option"

record scanQuery =
  target :: model
  conditions :: "cond list"

definition scan :: "model \<Rightarrow> scanQuery" where
  "scan m = \<lparr>target = m, conditions = []\<rparr>"

definition chain :: "scanQuery \<Rightarrow> cond \<Rightarrow> scanQuery" where
  "chain q c = q\<lparr>conditions := conditions q @ [c]\<rparr>"

text \<open>
  Modelled from the spec: the execution of a scan, \<^verbatim>\<open>scanQuery.exec()\<close>, which is done
  by the query library and the database and is not part of the repository. The store
  handle exposes a scan with a predicate that returns a list of records, and the
  conditions are AND-combined: the scan returns the items that satisfy every chained
  condition, in table order, or it is rejected with the store's error. What it means
  for one condition to hold of one item is left to the platform.
\<close>

definition exec :: "platform \<Rightarrow> scanQuery \<Rightarrow> error + item list" where
  "exec P q =
     (case failure (target q) of
        Some e \<Rightarrow> Inl e
      | None \<Rightarrow> Inr (filter (\<lambda>r. list_all (\<lambda>c. holds P c r) (conditions q))
                         (contents (target q))))"

subsection \<open>applyDynamoDBFilters\<close>

definition optStr :: "string option \<Rightarrow> jsval" where
  "optStr v = (case v of None \<Rightarrow> VUndefined | Some s \<Rightarrow> VStr s)"

definition filterField :: "string \<Rightarrow> string" where
  "filterField filterStr = (case split_bars [] filterStr of [] \<Rightarrow> [] | f # ps \<Rightarrow> f)"

definition filterOperator :: "string \<Rightarrow> string option" where
  "filterOperator filterStr = nth_opt (split_bars [] filterStr) 1"

definition filterValue :: "string \<Rightarrow> string option" where
  "filterValue filterStr = nth_opt (split_bars [] filterStr) 2"

text \<open>
  A comparison that converts its value first: the conversion may throw, otherwise the
  condition is chained.
\<close>

definition converted ::
  "platform \<Rightarrow> fieldTypes \<Rightarrow> scanQuery \<Rightarrow> string \<Rightarrow> string option
   \<Rightarrow> (string \<Rightarrow> jsval \<Rightarrow> cond) \<Rightarrow> error + scanQuery" where
  "converted P fieldTypes scanQuery field val mk =
     (case convertFilterValue P field val fieldTypes of
        Inl e \<Rightarrow> Inl e
      | Inr v \<Rightarrow> Inr (chain scanQuery (mk field v)))"

text \<open>
  The body of the \<^verbatim>\<open>forEach\<close>, one filter string. The \<^verbatim>\<open>between\<close> case calls
  \<^verbatim>\<open>value.includes\<close>, a TypeError on a missing value, and decodes every piece of the
  value before it takes the first two.
\<close>

definition applyFilter ::
  "platform \<Rightarrow> fieldTypes \<Rightarrow> scanQuery \<Rightarrow> string \<Rightarrow> error + scanQuery" where
  "applyFilter P fieldTypes scanQuery filterStr =
     (let field = filterField filterStr;
          operator = filterOperator filterStr;
          val = filterValue filterStr
      in if operator = Some ''eq'' then converted P fieldTypes scanQuery field val CEq
         else if operator = Some ''ne'' then converted P fieldTypes scanQuery field val CNe
         else if operator = Some ''cont'' then
           Inr (chain scanQuery (CContains field (optStr val)))
         else if operator = Some ''between'' then
           (case val of
              None \<Rightarrow> Inl TypeError
            | Some v \<Rightarrow>
                if CHR '','' \<in> set v then
                  (case those (map (decodeURIComponent P) (split_comma [] v)) of
                     None \<Rightarrow> Inl URIError
                   | Some ds \<Rightarrow>
                       Inr (chain scanQuery
                              (CBetween field (optStr (nth_opt ds 0)) (optStr (nth_opt ds 1)))))
                else Inr scanQuery)
         else if operator = Some ''gt'' then converted P fieldTypes scanQuery field val CGt
         else if operator = Some ''gte'' then converted P fieldTypes scanQuery field val CGe
         else if operator = Some ''lt'' then converted P fieldTypes scanQuery field val CLt
         else if operator = Some ''lte'' then converted P fieldTypes scanQuery field val CLe
         else if operator = Some ''isnull'' then Inr (chain scanQuery (CNull field))
         else if operator = Some ''notnull'' then Inr (chain scanQuery (CNotNull field))
         else Inr scanQuery)"

fun applyDynamoDBFilters ::
  "platform \<Rightarrow> scanQuery \<Rightarrow> string list \<Rightarrow> fieldTypes \<Rightarrow> error + scanQuery" where
  "applyDynamoDBFilters P scanQuery [] fieldTypes = Inr scanQuery"
| "applyDynamoDBFilters P scanQuery (filterStr # filters) fieldTypes =
     (case applyFilter P fieldTypes scanQuery filterStr of
        Inl e \<Rightarrow> Inl e
      | Inr q \<Rightarrow> applyDynamoDBFilters P q filters fieldTypes)"

subsection \<open>applyPagination\<close>

record pageResult =
  data :: "item list"
  count :: nat
  total :: nat
  page :: int
  pageCount :: jsnum

text \<open>
  \<^verbatim>\<open>xs.slice(start, end)\<close>: a negative index counts from the end of the array, and
  both indices are clamped to the array.
\<close>

definition slice :: "'a list \<Rightarrow> int \<Rightarrow> int \<Rightarrow> 'a list" where
  "slice xs startIndex endIndex =
     (let len = int (length xs);
          k = (if startIndex < 0 then max (len + startIndex) 0 else min startIndex len);
          final = (if endIndex < 0 then max (len + endIndex) 0 else min endIndex len)
      in take (nat (final - k)) (drop (nat k) xs))"

text \<open>\<^verbatim>\<open>Math.ceil(total / limit)\<close>; a division by zero gives NaN or Infinity.\<close>

definition ceilDiv :: "nat \<Rightarrow> int \<Rightarrow> jsnum" where
  "ceilDiv n limit =
     (if limit = 0 then (if n = 0 then NaN else PosInf)
      else Fin (of_int \<lceil>rat_of_nat n / rat_of_int limit\<rceil>))"

definition applyPagination :: "item list \<Rightarrow> int \<Rightarrow> int \<Rightarrow> pageResult" where
  "applyPagination items pageNo limit =
     (let totalItems = length items;
          startIndex = (pageNo - 1) * limit;
          endIndex = startIndex + limit;
          paginatedData = slice items startIndex endIndex
      in \<lparr>data = paginatedData, count = length paginatedData, total = totalItems,
          page = pageNo, pageCount = ceilDiv totalItems limit\<rparr>)"

subsection \<open>processQuery\<close>

definition processQuery ::
  "platform \<Rightarrow> model \<Rightarrow> string list \<Rightarrow> fieldTypes \<Rightarrow> string \<Rightarrow> int \<Rightarrow> int
   \<Rightarrow> error + pageResult" where
  "processQuery P m filters fieldTypes sortSpec pageNo limit =
     (case (if length filters > 0 then applyDynamoDBFilters P (scan m) filters fieldTypes
            else Inr (scan m)) of
        Inl e \<Rightarrow> Inl e
      | Inr scanQuery \<Rightarrow>
          (case exec P scanQuery of
             Inl e \<Rightarrow> Inl e
           | Inr allData \<Rightarrow>
               Inr (applyPagination (applySorting P allData sortSpec) pageNo limit)))"

subsection \<open>The pipeline in the words of the specification\<close>

text \<open>
  Build the predicate and execute the scan with it: the records of the store that pass
  the filter conditions.
\<close>

definition filterRecords ::
  "platform \<Rightarrow> model \<Rightarrow> string list \<Rightarrow> fieldTypes \<Rightarrow> error + item list" where
  "filterRecords P m filters fieldTypes =
     (case applyDynamoDBFilters P (scan m) filters fieldTypes of
        Inl e \<Rightarrow> Inl e
      | Inr q \<Rightarrow> exec P q)"

text \<open>The operators that \<^verbatim>\<open>applyDynamoDBFilters\<close> has a case for.\<close>

definition recognized :: "string list" where
  "recognized =
     [''eq'', ''ne'', ''cont'', ''between'', ''gt'', ''gte'', ''lt'', ''lte'',
      ''isnull'', ''notnull'']"

text \<open>
  What the sort expects of the collation: when it puts one string before another, it
  does not also put the second before the first.
\<close>

definition asymmetric :: "platform \<Rightarrow> bool" where
  "asymmetric P = (\<forall>s t. localeCompare P s t < 0 \<longrightarrow> \<not> localeCompare P t s < 0)"




subsection \<open>Invariants of the sort\<close>

text \<open>
  The sort puts an element \<open>v\<close> directly after an element \<open>u\<close> only on the strength of
  one answer of the test: \<open>v\<close> was found not less than \<open>u\<close>, or \<open>u\<close> was found less
  than \<open>v\<close>. A relation \<open>adj\<close> between neighbours is justified by the test when both
  answers imply it.
\<close>

definition justified :: "('a \<Rightarrow> 'a \<Rightarrow> bool) \<Rightarrow> ('a \<Rightarrow> 'a \<Rightarrow> bool) \<Rightarrow> bool" where
  "justified lt adj = ((\<forall>u v. \<not> lt v u \<longrightarrow> adj u v) \<and> (\<forall>u v. lt u v \<longrightarrow> adj u v))"

text \<open>
  The output of a merge of \<open>as\<close> and \<open>bs\<close>: neighbours are related, and the output
  begins and ends with an end of one of the two runs.
\<close>

definition merged :: "('a \<Rightarrow> 'a \<Rightarrow> bool) \<Rightarrow> 'a list \<Rightarrow> 'a list \<Rightarrow> 'a list \<Rightarrow> bool" where
  "merged adj as bs out =
     (successively adj out \<and> out \<noteq> []
      \<and> (hd out = hd as \<or> hd out = hd bs) \<and> (last out = last as \<or> last out = last bs))"

text \<open>
  What holds of the two runs whenever the loops of \<^verbatim>\<open>MergeLow\<close>, of \<^verbatim>\<open>MergeHigh\<close>
  and a merge as a whole are entered, and of the stack of pending runs.
\<close>

definition lowReady :: "('a \<Rightarrow> 'a \<Rightarrow> bool) \<Rightarrow> 'a list \<Rightarrow> 'a list \<Rightarrow> bool" where
  "lowReady adj as bs =
     (successively adj as \<and> successively adj bs \<and> 1 < length as \<and> bs \<noteq> []
      \<and> adj (last bs) (last as))"

definition highReady :: "('a \<Rightarrow> 'a \<Rightarrow> bool) \<Rightarrow> 'a list \<Rightarrow> 'a list \<Rightarrow> bool" where
  "highReady adj as bs =
     (successively adj as \<and> successively adj bs \<and> as \<noteq> [] \<and> 1 < length bs
      \<and> adj (hd bs) (hd as))"

definition mergeReady :: "('a \<Rightarrow> 'a \<Rightarrow> bool) \<Rightarrow> 'a list \<Rightarrow> 'a list \<Rightarrow> bool" where
  "mergeReady adj as bs =
     (successively adj as \<and> successively adj bs \<and> as \<noteq> [] \<and> bs \<noteq> []
      \<and> adj (hd bs) (hd as) \<and> adj (last bs) (last as))"

definition runsReady :: "('a \<Rightarrow> 'a \<Rightarrow> bool) \<Rightarrow> 'a list list \<Rightarrow> bool" where
  "runsReady adj pendingRuns = list_all (\<lambda>run. run \<noteq> [] \<and> successively adj run) pendingRuns"

subsection \<open>A sample platform\<close>

text \<open>
  An instance of the platform for applying the theorems to concrete inputs. It agrees
  with a JavaScript engine on the inputs used below: strings of digits and names that
  differ in their first capital letter are collated by character code, natural numbers
  are read and printed in decimal, and the escapes of ASCII characters in a URI
  component are decoded.
\<close>

fun codeCompare :: "string \<Rightarrow> string \<Rightarrow> int" where
  "codeCompare [] [] = 0"
| "codeCompare [] (d # ds) = - 1"
| "codeCompare (c # cs) [] = 1"
| "codeCompare (c # cs) (d # ds) =
     (if (of_char c :: nat) < of_char d then - 1
      else if (of_char d :: nat) < of_char c then 1
      else codeCompare cs ds)"

definition isDigit :: "char \<Rightarrow> bool" where
  "isDigit c = (48 \<le> (of_char c :: nat) \<and> (of_char c :: nat) \<le> 57)"

definition readDecimal :: "string \<Rightarrow> jsnum" where
  "readDecimal s =
     (if list_all isDigit s
      then Fin (of_nat (foldl (\<lambda>n c. 10 * n + (of_char c - 48)) 0 s))
      else NaN)"

function decimal :: "nat \<Rightarrow> string" where
  "decimal n =
     (if n < 10 then [char_of (48 + n)] else decimal (n div 10) @ [char_of (48 + n mod 10)])"
  by pat_completeness auto
termination
  by (relation "measure id") auto

declare decimal.simps [simp del]

fun printNumber :: "jsnum \<Rightarrow> string" where
  "printNumber (Fin r) = (if 0 \<le> r \<and> r = of_int \<lfloor>r\<rfloor> then decimal (nat \<lfloor>r\<rfloor>) else ''NaN'')"
| "printNumber PosInf = ''Infinity''"
| "printNumber NegInf = ''-Infinity''"
| "printNumber NaN = ''NaN''"

definition hexDigit :: "char \<Rightarrow> nat option" where
  "hexDigit c =
     (let n = (of_char c :: nat)
      in if 48 \<le> n \<and> n \<le> 57 then Some (n - 48)
         else if 65 \<le> n \<and> n \<le> 70 then Some (n - 55)
         else if 97 \<le> n \<and> n \<le> 102 then Some (n - 87)
         else None)"

fun decodeBytes :: "string \<Rightarrow> string option" where
  "decodeBytes [] = Some []"
| "decodeBytes [c] = (if c = CHR ''%'' then None else Some [c])"
| "decodeBytes [c, d] = (if c = CHR ''%'' \<or> d = CHR ''%'' then None else Some [c, d])"
| "decodeBytes (c # h # l # cs) =
     (if c = CHR ''%'' then
        (case (hexDigit h, hexDigit l) of
           (Some a, Some b) \<Rightarrow>
             (if 16 * a + b < 128 then map_option ((#) (char_of (16 * a + b))) (decodeBytes cs)
              else None)
         | _ \<Rightarrow> None)
      else map_option ((#) c) (decodeBytes (h # l # cs)))"

declare decodeBytes.simps [simp del]

text \<open>
  Modelled from the spec: the store's evaluation of one condition on one record, which
  is done by the database engine and is not part of the repository. It follows the
  operator table of the component design: equality, substring, inclusive range,
  ordering of two numbers, two dates or two strings, and absence.
\<close>

fun valueLess :: "jsval \<Rightarrow> jsval \<Rightarrow> bool" where
  "valueLess (VNum x) (VNum y) = isNegative (num_sub x y)"
| "valueLess (VStr s) (VStr t) = (codeCompare s t < 0)"
| "valueLess (VDate x) (VDate y) = isNegative (num_sub (getTime x) (getTime y))"
| "valueLess x y = False"

fun sameKind :: "jsval \<Rightarrow> jsval \<Rightarrow> bool" where
  "sameKind (VNum x) (VNum y) = True"
| "sameKind (VStr s) (VStr t) = True"
| "sameKind (VDate x) (VDate y) = True"
| "sameKind x y = False"

fun storeHolds :: "cond \<Rightarrow> item \<Rightarrow> bool" where
  "storeHolds (CEq f v) r = (attribute r f = v)"
| "storeHolds (CNe f v) r = (attribute r f \<noteq> v)"
| "storeHolds (CContains f v) r =
     (case (attribute r f, v) of (VStr s, VStr t) \<Rightarrow> sublist t s | _ \<Rightarrow> False)"
| "storeHolds (CBetween f lo hi) r =
     (sameKind lo (attribute r f) \<and> sameKind (attribute r f) hi
      \<and> \<not> valueLess (attribute r f) lo \<and> \<not> valueLess hi (attribute r f))"
| "storeHolds (CGt f v) r = valueLess v (attribute r f)"
| "storeHolds (CGe f v) r = (sameKind v (attribute r f) \<and> \<not> valueLess (attribute r f) v)"
| "storeHolds (CLt f v) r = valueLess (attribute r f) v"
| "storeHolds (CLe f v) r = (sameKind v (attribute r f) \<and> \<not> valueLess v (attribute r f))"
| "storeHolds (CNull f) r = nullish (attribute r f)"
| "storeHolds (CNotNull f) r = (\<not> nullish (attribute r f))"

text \<open>
  The properties that a plain object inherits from \<^verbatim>\<open>Object.prototype\<close>: eleven
  built-in functions, each with the text that \<^verbatim>\<open>String\<close> gives for it, and the
  prototype object itself.
\<close>

definition nativeFunction :: "string \<Rightarrow> string \<times> jsval" where
  "nativeFunction name = (name, VOther (''function '' @ name @ ''() { [native code] }''))"

definition objectPrototype :: "(string \<times> jsval) list" where
  "objectPrototype =
     (''constructor'', VOther ''function Object() { [native code] }'')
     # (''__proto__'', VOther ''[object Object]'')
     # map nativeFunction
         [''__defineGetter__'', ''__defineSetter__'', ''hasOwnProperty'', ''__lookupGetter__'',
          ''__lookupSetter__'', ''isPrototypeOf'', ''propertyIsEnumerable'', ''toString'',
          ''valueOf'', ''toLocaleString'']"

definition samplePlatform :: platform where
  "samplePlatform =
     \<lparr>localeCompare = codeCompare, numberToString = printNumber,
      dateToString = (\<lambda>d. case d of None \<Rightarrow> ''Invalid Date'' | Some t \<Rightarrow> ''Date''),
      toNumber = readDecimal, parseDate = (\<lambda>s. None),
      decodeURIComponent = decodeBytes, holds = storeHolds,
      inherited = map_of objectPrototype\<rparr>"

text \<open>The three orders of the first test scenario, and the field types of an order.\<close>

definition sampleOrders :: "item list" where
  "sampleOrders =
     [[(''id'', VNum (Fin 1)), (''status'', VNum (Fin 1))],
      [(''id'', VNum (Fin 2)), (''status'', VNum (Fin 0))],
      [(''id'', VNum (Fin 3)), (''status'', VNum (Fin 1))]]"

definition sampleTypes :: fieldTypes where
  "sampleTypes = [''id'' \<mapsto> ''Number'', ''status'' \<mapsto> ''Number'', ''name'' \<mapsto> ''String'']"

text \<open>
  Five records whose attribute \<open>v\<close> is a number, null, a string, missing and a number.
\<close>

definition sampleMixed :: "item list" where
  "sampleMixed =
     [[(''v'', VNum (Fin 10))], [(''v'', VNull)], [(''v'', VStr ''5'')],
      [(''w'', VStr ''x'')], [(''v'', VNum (Fin 9))]]"

text \<open>
  A store that holds the three orders, the same store out of order, and a store of two
  named records.
\<close>

definition sampleStore :: model where
  "sampleStore = \<lparr>contents = sampleOrders, failure = None\<rparr>"

definition failingStore :: model where
  "failingStore =
     \<lparr>contents = sampleOrders, failure = Some (StoreFailure ''ThrottlingException'')\<rparr>"

definition sampleNames :: model where
  "sampleNames =
     \<lparr>contents = [[(''name'', VStr ''John'')], [(''name'', VStr ''Sarah'')]], failure = None\<rparr>"


definition sampleLong :: "item list" where
  "sampleLong =
     map (\<lambda>n. [(''v'', VNum (Fin (of_nat n)))]) [100..<132]
     @ [[(''v'', VNum (Fin 5))], [(''v'', VStr ''2'')]]
     @ map (\<lambda>n. [(''v'', VNum (Fin (of_nat n)))]) [6..<36]"

section \<open>Pagination\<close>

lemma slice_forward:
  assumes "0 \<le> startIndex" "0 \<le> n"
  shows "slice xs startIndex (startIndex + n) = take (nat n) (drop (nat startIndex) xs)"
proof (cases "startIndex < int (length xs)")
  case True
  have "take (nat (min (startIndex + n) (int (length xs)) - startIndex)) (drop (nat startIndex) xs)
        = take (nat n) (drop (nat startIndex) xs)"
  proof (cases "startIndex + n \<le> int (length xs)")
    case True
    then show ?thesis by (simp add: min_def)
  next
    case False
    then have "length (drop (nat startIndex) xs) \<le> nat n"
      and "length (drop (nat startIndex) xs) \<le> nat (int (length xs) - startIndex)"
      using assms by auto
    then show ?thesis using False by (simp add: min_def)
  qed
  with True assms show ?thesis by (simp add: slice_def Let_def min_def)
next
  case False
  with assms show ?thesis by (simp add: slice_def Let_def min_def)
qed

lemma ceiling_bounds:
  assumes "1 \<le> (limit::int)"
  shows "(\<lceil>rat_of_nat n / rat_of_int limit\<rceil> - 1) * limit < int n
       \<and> int n \<le> \<lceil>rat_of_nat n / rat_of_int limit\<rceil> * limit"
proof -
  define q where "q = rat_of_nat n / rat_of_int limit"
  have pos: "0 < rat_of_int limit" using assms by simp
  have n: "rat_of_nat n = q * rat_of_int limit" using pos by (simp add: q_def)
  have "of_int \<lceil>q\<rceil> - 1 < q" "q \<le> of_int \<lceil>q\<rceil>" by linarith+
  then have "(of_int \<lceil>q\<rceil> - 1) * rat_of_int limit < q * rat_of_int limit"
    and "q * rat_of_int limit \<le> of_int \<lceil>q\<rceil> * rat_of_int limit"
    using pos by (simp_all add: mult_strict_right_mono mult_right_mono)
  then have "rat_of_int ((\<lceil>q\<rceil> - 1) * limit) < rat_of_int (int n)"
    and "rat_of_int (int n) \<le> rat_of_int (\<lceil>q\<rceil> * limit)"
    using n by simp_all
  then show ?thesis unfolding q_def [symmetric] by (simp only: of_int_less_iff of_int_le_iff)
qed

lemma ceiling_zero_iff:
  assumes "1 \<le> (limit::int)"
  shows "\<lceil>rat_of_nat n / rat_of_int limit\<rceil> = 0 \<longleftrightarrow> n = 0"
  using ceiling_bounds [OF assms, of n] assms
  by (cases "n = 0") (auto simp: mult_less_0_iff)

text \<open>
  C2. For a page and a limit of at least 1, the result of \<^verbatim>\<open>applyPagination\<close> has
  \<open>count\<close> equal to the length of \<open>data\<close> and at most \<open>limit\<close>, \<open>total\<close> the length of
  the input, \<open>pageCount\<close> the ceiling of \<open>total / limit\<close> (the least number of pages of
  \<open>limit\<close> records that hold \<open>total\<close> records), and \<open>pageCount\<close> is 0 exactly when
  \<open>total\<close> is 0.
\<close>

theorem pagination_invariants:
  assumes "1 \<le> pageNo" and "1 \<le> limit"
  shows "count (applyPagination items pageNo limit) = length (data (applyPagination items pageNo limit))
       \<and> int (count (applyPagination items pageNo limit)) \<le> limit
       \<and> total (applyPagination items pageNo limit) = length items
       \<and> pageCount (applyPagination items pageNo limit)
           = Fin (of_int \<lceil>rat_of_nat (length items) / rat_of_int limit\<rceil>)
       \<and> (\<lceil>rat_of_nat (length items) / rat_of_int limit\<rceil> - 1) * limit < int (length items)
       \<and> int (length items) \<le> \<lceil>rat_of_nat (length items) / rat_of_int limit\<rceil> * limit
       \<and> (pageCount (applyPagination items pageNo limit) = Fin 0
            \<longleftrightarrow> total (applyPagination items pageNo limit) = 0)"
proof -
  have s: "0 \<le> (pageNo - 1) * limit" using assms by simp
  have d: "data (applyPagination items pageNo limit)
           = take (nat limit) (drop (nat ((pageNo - 1) * limit)) items)"
    using slice_forward [OF s, of limit items] assms by (simp add: applyPagination_def Let_def)
  have c: "count (applyPagination items pageNo limit) = length (data (applyPagination items pageNo limit))"
    by (simp add: applyPagination_def Let_def)
  have "length (data (applyPagination items pageNo limit)) \<le> nat limit" unfolding d by simp
  then have l: "int (count (applyPagination items pageNo limit)) \<le> limit" using c assms by linarith
  have t: "total (applyPagination items pageNo limit) = length items"
    by (simp add: applyPagination_def Let_def)
  have p: "pageCount (applyPagination items pageNo limit)
           = Fin (of_int \<lceil>rat_of_nat (length items) / rat_of_int limit\<rceil>)"
    using assms by (simp add: applyPagination_def Let_def ceilDiv_def)
  have z: "pageCount (applyPagination items pageNo limit) = Fin 0
            \<longleftrightarrow> total (applyPagination items pageNo limit) = 0"
    unfolding p t using ceiling_zero_iff [OF assms(2), of "length items"] by simp
  show ?thesis using c l t p z ceiling_bounds [OF assms(2), of "length items"] by blast
qed

theorem pagination_invariants_witness:
  "(1::int) \<le> 2 \<and> (1::int) \<le> 2
   \<and> count (applyPagination sampleOrders 2 2) = length (data (applyPagination sampleOrders 2 2))
   \<and> int (count (applyPagination sampleOrders 2 2)) \<le> 2
   \<and> total (applyPagination sampleOrders 2 2) = 3
   \<and> pageCount (applyPagination sampleOrders 2 2) = Fin 2
   \<and> (pageCount (applyPagination sampleOrders 2 2) = Fin 0
        \<longleftrightarrow> total (applyPagination sampleOrders 2 2) = 0)"
proof -
  have h: "(1::int) \<le> 2" by simp
  have l: "length sampleOrders = 3" by (simp add: sampleOrders_def)
  have c: "\<lceil>rat_of_nat (length sampleOrders) / rat_of_int 2\<rceil> = 2"
    unfolding l by (rule ceiling_unique) simp_all
  show ?thesis using pagination_invariants [OF h h, of sampleOrders] h l
    unfolding c by simp
qed

text \<open>
  C7. For a page and a limit of at least 1, \<^verbatim>\<open>applyPagination\<close> returns the \<open>limit\<close>
  records that follow the first \<open>(page - 1) * limit\<close> ones, and the empty sequence when
  that offset is not below the number of records. The function has no error result.
\<close>

theorem pagination_offset:
  assumes "1 \<le> pageNo" and "1 \<le> limit"
  shows "data (applyPagination items pageNo limit)
           = take (nat limit) (drop (nat ((pageNo - 1) * limit)) items)
       \<and> (int (length items) \<le> (pageNo - 1) * limit
            \<longrightarrow> data (applyPagination items pageNo limit) = [])"
proof -
  have s: "0 \<le> (pageNo - 1) * limit" using assms by simp
  have d: "data (applyPagination items pageNo limit)
           = take (nat limit) (drop (nat ((pageNo - 1) * limit)) items)"
    using slice_forward [OF s, of limit items] assms by (simp add: applyPagination_def Let_def)
  show ?thesis unfolding d using s by auto
qed

theorem pagination_offset_witness:
  "(1::int) \<le> 2 \<and> (1::int) \<le> 2
   \<and> data (applyPagination sampleOrders 2 2) = [[(''id'', VNum (Fin 3)), (''status'', VNum (Fin 1))]]
   \<and> (1::int) \<le> 3 \<and> int (length sampleOrders) \<le> (3 - 1) * 2
   \<and> data (applyPagination sampleOrders 3 2) = []"
proof -
  have h: "(1::int) \<le> 2" and h3: "(1::int) \<le> 3" by simp_all
  have l: "int (length sampleOrders) \<le> (3 - 1) * 2" by (simp add: sampleOrders_def)
  have d: "take (nat 2) (drop (nat ((2 - 1) * 2)) sampleOrders)
           = [[(''id'', VNum (Fin 3)), (''status'', VNum (Fin 1))]]"
    by (simp add: sampleOrders_def)
  show ?thesis
    using pagination_offset [OF h h, of sampleOrders] pagination_offset [OF h3 h, of sampleOrders]
      h h3 l d by simp
qed

section \<open>Sorting\<close>

subsection \<open>Neighbours in a list\<close>

lemma justified_ge: "justified lt adj \<Longrightarrow> \<not> lt v u \<Longrightarrow> adj u v"
  unfolding justified_def by blast

lemma justified_lt: "justified lt adj \<Longrightarrow> lt u v \<Longrightarrow> adj u v"
  unfolding justified_def by blast

lemma successively_take: "successively R xs \<Longrightarrow> successively R (take n xs)"
  by (metis append_take_drop_id successively_append_iff)

lemma successively_drop: "successively R xs \<Longrightarrow> successively R (drop n xs)"
  by (metis append_take_drop_id successively_append_iff)

lemma successively_butlast: "successively R xs \<Longrightarrow> successively R (butlast xs)"
  unfolding butlast_conv_take by (rule successively_take)

lemma successively_tl: "successively R xs \<Longrightarrow> successively R (tl xs)"
  by (cases xs) (auto simp: successively_Cons)

lemma glue:
  "successively R xs \<Longrightarrow> successively R ys \<Longrightarrow> (xs \<noteq> [] \<Longrightarrow> ys \<noteq> [] \<Longrightarrow> R (last xs) (hd ys))
   \<Longrightarrow> successively R (xs @ ys)"
  by (auto simp: successively_append_iff)

lemma glue_Cons:
  "successively R ys \<Longrightarrow> (ys \<noteq> [] \<Longrightarrow> R x (hd ys)) \<Longrightarrow> successively R (x # ys)"
  by (auto simp: successively_Cons)

lemma glue_snoc:
  "successively R xs \<Longrightarrow> (xs \<noteq> [] \<Longrightarrow> R (last xs) y) \<Longrightarrow> successively R (xs @ [y])"
  by (auto simp: successively_append_iff)

lemma last_take_nth:
  assumes "0 < k" "k \<le> length xs"
  shows "last (take k xs) = xs ! (k - 1)"
proof -
  from assms have "take k xs \<noteq> []" by auto
  then have "last (take k xs) = take k xs ! (length (take k xs) - 1)" by (rule last_conv_nth)
  also have "length (take k xs) = k" using assms by simp
  also have "take k xs ! (k - 1) = xs ! (k - 1)" using assms by simp
  finally show ?thesis .
qed

lemma hd_drop_nth: "k < length xs \<Longrightarrow> hd (drop k xs) = xs ! k"
  by (simp add: hd_drop_conv_nth)

subsection \<open>Runs and binary insertion\<close>

lemma run_asc_ok:
  "justified lt adj \<Longrightarrow> successively adj (p # take (run_length lt False p xs) xs)"
proof (induction xs arbitrary: p)
  case Nil
  then show ?case by simp
next
  case (Cons c cs)
  show ?case
  proof (cases "lt c p")
    case True
    then show ?thesis by simp
  next
    case False
    then have "adj p c" using justified_ge [OF Cons.prems] by blast
    with False Cons.IH [OF Cons.prems, of c] show ?thesis by simp
  qed
qed

lemma run_desc_lt:
  "successively (\<lambda>a b. lt b a) (p # take (run_length lt True p xs) xs)"
  by (induction xs arbitrary: p) auto

lemma CountAndMakeRun_ok:
  assumes R: "justified lt adj"
  shows "successively adj (fst (CountAndMakeRun lt xs))"
proof (cases xs)
  case Nil
  then show ?thesis by simp
next
  case (Cons x0 ys)
  show ?thesis
  proof (cases ys)
    case Nil
    with Cons show ?thesis by simp
  next
    case (Cons x1 zs)
    show ?thesis
    proof (cases "lt x1 x0")
      case True
      have "successively (\<lambda>a b. lt b a) (x0 # x1 # take (run_length lt True x1 zs) zs)"
        using True run_desc_lt [of lt x1 zs] by simp
      then have "successively (\<lambda>a b. lt a b) (rev (x0 # x1 # take (run_length lt True x1 zs) zs))"
        by (simp only: successively_rev)
      then have "successively adj (rev (x0 # x1 # take (run_length lt True x1 zs) zs))"
        by (rule successively_mono) (use justified_lt [OF R] in blast)
      with True \<open>xs = x0 # ys\<close> \<open>ys = x1 # zs\<close> show ?thesis by (simp add: Let_def)
    next
      case False
      then have "adj x0 x1" using justified_ge [OF R] by blast
      with False \<open>xs = x0 # ys\<close> \<open>ys = x1 # zs\<close> run_asc_ok [OF R, of x1 zs] show ?thesis
        by (simp add: Let_def)
    qed
  qed
qed

lemma run_length_ascending:
  "successively (\<lambda>a b. \<not> lt b a) (p # xs) \<Longrightarrow> run_length lt False p xs = length xs"
  by (induction xs arbitrary: p) auto

lemma CountAndMakeRun_fixed:
  "successively (\<lambda>a b. \<not> lt b a) xs \<Longrightarrow> CountAndMakeRun lt xs = (xs, [])"
proof (cases xs)
  case Nil
  then show ?thesis by simp
next
  case (Cons x0 ys)
  assume a: "successively (\<lambda>a b. \<not> lt b a) xs"
  show ?thesis
  proof (cases ys)
    case Nil
    with Cons show ?thesis by simp
  next
    case (Cons x1 zs)
    with a \<open>xs = x0 # ys\<close> have "\<not> lt x1 x0" "successively (\<lambda>a b. \<not> lt b a) (x1 # zs)" by auto
    with run_length_ascending [of lt x1 zs] Cons \<open>xs = x0 # ys\<close> show ?thesis by (simp add: Let_def)
  qed
qed

lemma bsearch_range:
  "left \<le> right \<Longrightarrow> left \<le> bsearch g left right \<and> bsearch g left right \<le> right"
proof (induction g left right rule: bsearch.induct)
  case (1 g left right)
  show ?case
  proof (cases "left < right")
    case True
    define mid where "mid = left + (right - left) div 2"
    have m: "left \<le> mid" "mid < right" using True by (auto simp: mid_def)
    show ?thesis
    proof (cases "g mid")
      case gl: True
      from "1.IH"(1) [OF True mid_def gl] m
      have "left \<le> bsearch g left mid \<and> bsearch g left mid \<le> mid" by simp
      moreover have "bsearch g left right = bsearch g left mid"
        using True gl by (subst bsearch.simps) (simp add: Let_def flip: mid_def)
      ultimately show ?thesis using m by simp
    next
      case gr: False
      from "1.IH"(2) [OF True mid_def gr] m
      have "mid + 1 \<le> bsearch g (mid + 1) right \<and> bsearch g (mid + 1) right \<le> right" by simp
      moreover have "bsearch g left right = bsearch g (mid + 1) right"
        using True gr by (subst bsearch.simps) (simp add: Let_def flip: mid_def)
      ultimately show ?thesis using m by simp
    qed
  next
    case False
    then have "bsearch g left right = left" by (subst bsearch.simps) simp
    with "1.prems" show ?thesis by simp
  qed
qed

lemma bsearch_neighbours:
  "left \<le> right \<Longrightarrow> (0 < left \<longrightarrow> \<not> g (left - 1)) \<Longrightarrow> (right < n \<longrightarrow> g right)
   \<Longrightarrow> (0 < bsearch g left right \<longrightarrow> \<not> g (bsearch g left right - 1))
     \<and> (bsearch g left right < n \<longrightarrow> g (bsearch g left right))"
proof (induction g left right rule: bsearch.induct)
  case (1 g left right)
  show ?case
  proof (cases "left < right")
    case True
    define mid where "mid = left + (right - left) div 2"
    have m: "left \<le> mid" "mid < right" using True by (auto simp: mid_def)
    show ?thesis
    proof (cases "g mid")
      case gl: True
      have eq: "bsearch g left right = bsearch g left mid"
        using True gl by (subst bsearch.simps) (simp add: Let_def flip: mid_def)
      show ?thesis unfolding eq
        by (rule "1.IH"(1) [OF True mid_def gl]) (use m 1 gl in auto)
    next
      case gr: False
      have eq: "bsearch g left right = bsearch g (mid + 1) right"
        using True gr by (subst bsearch.simps) (simp add: Let_def flip: mid_def)
      show ?thesis unfolding eq
        by (rule "1.IH"(2) [OF True mid_def gr]) (use m 1 gr in auto)
    qed
  next
    case False
    then have "bsearch g left right = left" by (subst bsearch.simps) simp
    with False 1 show ?thesis by auto
  qed
qed

lemma insert_ok:
  assumes R: "justified lt adj" and asc: "successively adj xs"
  shows "successively adj
           (take (bsearch (\<lambda>mid. lt p (xs ! mid)) 0 (length xs)) xs
            @ p # drop (bsearch (\<lambda>mid. lt p (xs ! mid)) 0 (length xs)) xs)"
proof -
  define l where "l = bsearch (\<lambda>mid. lt p (xs ! mid)) 0 (length xs)"
  have range: "l \<le> length xs"
    using bsearch_range [of 0 "length xs" "\<lambda>mid. lt p (xs ! mid)"] by (simp add: l_def)
  have nb: "(0 < l \<longrightarrow> \<not> lt p (xs ! (l - 1))) \<and> (l < length xs \<longrightarrow> lt p (xs ! l))"
    unfolding l_def by (rule bsearch_neighbours) auto
  have 1: "successively adj (take l xs)" using asc by (rule successively_take)
  have 2: "successively adj (p # drop l xs)"
  proof (rule glue_Cons)
    show "successively adj (drop l xs)" using asc by (rule successively_drop)
    assume "drop l xs \<noteq> []"
    then have "l < length xs" by simp
    then have "hd (drop l xs) = xs ! l" "lt p (xs ! l)" using nb by (simp_all add: hd_drop_nth)
    then show "adj p (hd (drop l xs))" using justified_lt [OF R] by simp
  qed
  have "successively adj (take l xs @ p # drop l xs)"
  proof (rule glue [OF 1 2])
    assume "take l xs \<noteq> []"
    then have "0 < l" by (cases l) auto
    then have "last (take l xs) = xs ! (l - 1)" "\<not> lt p (xs ! (l - 1))"
      using range nb by (simp_all add: last_take_nth)
    then show "adj (last (take l xs)) (hd (p # drop l xs))" using justified_ge [OF R] by simp
  qed
  then show ?thesis unfolding l_def .
qed

lemma BinaryInsertionSort_ok:
  "justified lt adj \<Longrightarrow> successively adj front
   \<Longrightarrow> successively adj (BinaryInsertionSort lt front rest)"
proof (induction rest arbitrary: front)
  case Nil
  then show ?case by simp
next
  case (Cons p rest)
  show ?case
    using Cons.IH [OF Cons.prems(1) insert_ok [OF Cons.prems(1) Cons.prems(2), of p]]
    by (simp add: Let_def)
qed

lemma BinaryInsertionSort_nonempty: "front \<noteq> [] \<Longrightarrow> BinaryInsertionSort lt front rest \<noteq> []"
  by (induction rest arbitrary: front) (auto simp: Let_def)

lemma CountAndMakeRun_nonempty:
  "CountAndMakeRun lt xs = (run, rest) \<Longrightarrow> xs \<noteq> [] \<Longrightarrow> run \<noteq> []"
  by (cases "(lt, xs)" rule: CountAndMakeRun.cases) (auto simp: Let_def split: if_splits)

subsection \<open>Galloping\<close>

lemma gallop_post:
  "gallop goOn maxOfs lastOfs offset = (l, ofs) \<Longrightarrow> lastOfs < offset \<Longrightarrow> lastOfs < maxOfs
   \<Longrightarrow> lastOfs = 0 \<or> goOn lastOfs
   \<Longrightarrow> l < ofs \<and> l < maxOfs \<and> (l = 0 \<or> goOn l) \<and> (ofs < maxOfs \<longrightarrow> \<not> goOn ofs)"
proof (induction goOn maxOfs lastOfs offset rule: gallop.induct)
  case (1 goOn maxOfs lastOfs offset)
  show ?case
  proof (cases "offset < maxOfs \<and> goOn offset")
    case True
    then have "gallop goOn maxOfs lastOfs offset = gallop goOn maxOfs offset (2 * offset + 1)"
      by (subst gallop.simps) simp
    with "1.prems"(1) have "gallop goOn maxOfs offset (2 * offset + 1) = (l, ofs)" by simp
    from "1.IH" [OF _ _ this] True show ?thesis by simp
  next
    case False
    then have "gallop goOn maxOfs lastOfs offset = (lastOfs, offset)"
      by (subst gallop.simps) auto
    with "1.prems" False show ?thesis by auto
  qed
qed

lemma GallopLeft_post:
  assumes "hint < length xs"
  shows "GallopLeft lt key xs hint \<le> length xs
       \<and> (0 < GallopLeft lt key xs hint \<longrightarrow> lt (xs ! (GallopLeft lt key xs hint - 1)) key)
       \<and> (GallopLeft lt key xs hint < length xs \<longrightarrow> \<not> lt (xs ! GallopLeft lt key xs hint) key)"
proof (cases "lt (xs ! hint) key")
  case True
  obtain l ofs where g: "gallop (\<lambda>ofs. lt (xs ! (hint + ofs)) key) (length xs - hint) 0 1 = (l, ofs)"
    by (cases "gallop (\<lambda>ofs. lt (xs ! (hint + ofs)) key) (length xs - hint) 0 1")
  from gallop_post [OF g] assms
  have p: "l < ofs" "l < length xs - hint" "l = 0 \<or> lt (xs ! (hint + l)) key"
    "ofs < length xs - hint \<longrightarrow> \<not> lt (xs ! (hint + ofs)) key" by simp_all
  define lo where "lo = l + hint + 1"
  define hi where "hi = min ofs (length xs - hint) + hint"
  have k: "GallopLeft lt key xs hint = bsearch (\<lambda>m. \<not> lt (xs ! m) key) lo hi"
    using True g by (simp add: GallopLeft_def lo_def hi_def)
  have le: "lo \<le> hi" using p(1,2) by (simp add: lo_def hi_def)
  have hn: "hi \<le> length xs" using assms by (simp add: hi_def)
  have l1: "0 < lo \<longrightarrow> \<not> \<not> lt (xs ! (lo - 1)) key"
    using p(3) True by (auto simp: lo_def add.commute)
  have h1: "hi < length xs \<longrightarrow> \<not> lt (xs ! hi) key"
  proof
    assume "hi < length xs"
    then have "ofs < length xs - hint" "hi = hint + ofs" by (auto simp: hi_def min_def split: if_splits)
    with p(4) show "\<not> lt (xs ! hi) key" by simp
  qed
  from bsearch_range [OF le, of "\<lambda>m. \<not> lt (xs ! m) key"]
    bsearch_neighbours [OF le l1 h1] hn
  show ?thesis unfolding k by auto
next
  case False
  obtain l ofs where g: "gallop (\<lambda>ofs. \<not> lt (xs ! (hint - ofs)) key) (hint + 1) 0 1 = (l, ofs)"
    by (cases "gallop (\<lambda>ofs. \<not> lt (xs ! (hint - ofs)) key) (hint + 1) 0 1")
  from gallop_post [OF g]
  have p: "l < ofs" "l < hint + 1" "l = 0 \<or> \<not> lt (xs ! (hint - l)) key"
    "ofs < hint + 1 \<longrightarrow> \<not> \<not> lt (xs ! (hint - ofs)) key" by simp_all
  define lo where "lo = hint + 1 - min ofs (hint + 1)"
  define hi where "hi = hint - l"
  have k: "GallopLeft lt key xs hint = bsearch (\<lambda>m. \<not> lt (xs ! m) key) lo hi"
    using False g by (simp add: GallopLeft_def lo_def hi_def)
  have le: "lo \<le> hi" using p(1,2) by (auto simp: lo_def hi_def min_def)
  have hn: "hi < length xs" using assms by (simp add: hi_def)
  have l1: "0 < lo \<longrightarrow> \<not> \<not> lt (xs ! (lo - 1)) key"
  proof
    assume "0 < lo"
    then have "ofs < hint + 1" "lo - 1 = hint - ofs" by (auto simp: lo_def min_def split: if_splits)
    with p(4) show "\<not> \<not> lt (xs ! (lo - 1)) key" by simp
  qed
  have h1: "hi < length xs \<longrightarrow> \<not> lt (xs ! hi) key"
    using p(3) False by (auto simp: hi_def)
  from bsearch_range [OF le, of "\<lambda>m. \<not> lt (xs ! m) key"]
    bsearch_neighbours [OF le l1 h1] hn
  show ?thesis unfolding k by auto
qed

lemma GallopRight_post:
  assumes "hint < length xs"
  shows "GallopRight lt key xs hint \<le> length xs
       \<and> (0 < GallopRight lt key xs hint \<longrightarrow> \<not> lt key (xs ! (GallopRight lt key xs hint - 1)))
       \<and> (GallopRight lt key xs hint < length xs \<longrightarrow> lt key (xs ! GallopRight lt key xs hint))"
proof (cases "lt key (xs ! hint)")
  case True
  obtain l ofs where g: "gallop (\<lambda>ofs. lt key (xs ! (hint - ofs))) (hint + 1) 0 1 = (l, ofs)"
    by (cases "gallop (\<lambda>ofs. lt key (xs ! (hint - ofs))) (hint + 1) 0 1")
  from gallop_post [OF g]
  have p: "l < ofs" "l < hint + 1" "l = 0 \<or> lt key (xs ! (hint - l))"
    "ofs < hint + 1 \<longrightarrow> \<not> lt key (xs ! (hint - ofs))" by simp_all
  define lo where "lo = hint + 1 - min ofs (hint + 1)"
  define hi where "hi = hint - l"
  have k: "GallopRight lt key xs hint = bsearch (\<lambda>m. lt key (xs ! m)) lo hi"
    using True g by (simp add: GallopRight_def lo_def hi_def)
  have le: "lo \<le> hi" using p(1,2) by (auto simp: lo_def hi_def min_def)
  have hn: "hi < length xs" using assms by (simp add: hi_def)
  have l1: "0 < lo \<longrightarrow> \<not> lt key (xs ! (lo - 1))"
  proof
    assume "0 < lo"
    then have "ofs < hint + 1" "lo - 1 = hint - ofs" by (auto simp: lo_def min_def split: if_splits)
    with p(4) show "\<not> lt key (xs ! (lo - 1))" by simp
  qed
  have h1: "hi < length xs \<longrightarrow> lt key (xs ! hi)"
    using p(3) True by (auto simp: hi_def)
  from bsearch_range [OF le, of "\<lambda>m. lt key (xs ! m)"]
    bsearch_neighbours [OF le l1 h1] hn
  show ?thesis unfolding k by auto
next
  case False
  obtain l ofs where g: "gallop (\<lambda>ofs. \<not> lt key (xs ! (hint + ofs))) (length xs - hint) 0 1 = (l, ofs)"
    by (cases "gallop (\<lambda>ofs. \<not> lt key (xs ! (hint + ofs))) (length xs - hint) 0 1")
  from gallop_post [OF g] assms
  have p: "l < ofs" "l < length xs - hint" "l = 0 \<or> \<not> lt key (xs ! (hint + l))"
    "ofs < length xs - hint \<longrightarrow> \<not> \<not> lt key (xs ! (hint + ofs))" by simp_all
  define lo where "lo = l + hint + 1"
  define hi where "hi = min ofs (length xs - hint) + hint"
  have k: "GallopRight lt key xs hint = bsearch (\<lambda>m. lt key (xs ! m)) lo hi"
    using False g by (simp add: GallopRight_def lo_def hi_def)
  have le: "lo \<le> hi" using p(1,2) by (simp add: lo_def hi_def)
  have hn: "hi \<le> length xs" using assms by (simp add: hi_def)
  have l1: "0 < lo \<longrightarrow> \<not> lt key (xs ! (lo - 1))"
    using p(3) False by (auto simp: lo_def add.commute)
  have h1: "hi < length xs \<longrightarrow> lt key (xs ! hi)"
  proof
    assume "hi < length xs"
    then have "ofs < length xs - hint" "hi = hint + ofs" by (auto simp: hi_def min_def split: if_splits)
    with p(4) show "lt key (xs ! hi)" by simp
  qed
  from bsearch_range [OF le, of "\<lambda>m. lt key (xs ! m)"]
    bsearch_neighbours [OF le l1 h1] hn
  show ?thesis unfolding k by auto
qed

lemma GallopRight_split:
  assumes J: "justified lt adj" and h: "hint < length xs"
  shows "(take (GallopRight lt key xs hint) xs \<noteq> []
           \<longrightarrow> adj (last (take (GallopRight lt key xs hint) xs)) key)
       \<and> (drop (GallopRight lt key xs hint) xs \<noteq> []
           \<longrightarrow> adj key (hd (drop (GallopRight lt key xs hint) xs)))"
proof -
  define k where "k = GallopRight lt key xs hint"
  from GallopRight_post [OF h, of lt key]
  have p: "k \<le> length xs" "0 < k \<longrightarrow> \<not> lt key (xs ! (k - 1))" "k < length xs \<longrightarrow> lt key (xs ! k)"
    by (simp_all add: k_def)
  have 1: "adj (last (take k xs)) key" if "take k xs \<noteq> []"
  proof -
    from that have "0 < k" by (cases k) auto
    with p have "last (take k xs) = xs ! (k - 1)" "\<not> lt key (xs ! (k - 1))"
      by (simp_all add: last_take_nth)
    then show ?thesis using justified_ge [OF J] by simp
  qed
  have 2: "adj key (hd (drop k xs))" if "drop k xs \<noteq> []"
  proof -
    from that have "k < length xs" by simp
    with p have "hd (drop k xs) = xs ! k" "lt key (xs ! k)" by (simp_all add: hd_drop_nth)
    then show ?thesis using justified_lt [OF J] by simp
  qed
  from 1 2 show ?thesis unfolding k_def by blast
qed

lemma GallopLeft_split:
  assumes J: "justified lt adj" and h: "hint < length xs"
  shows "(take (GallopLeft lt key xs hint) xs \<noteq> []
           \<longrightarrow> adj (last (take (GallopLeft lt key xs hint) xs)) key)
       \<and> (drop (GallopLeft lt key xs hint) xs \<noteq> []
           \<longrightarrow> adj key (hd (drop (GallopLeft lt key xs hint) xs)))"
proof -
  define k where "k = GallopLeft lt key xs hint"
  from GallopLeft_post [OF h, of lt key]
  have p: "k \<le> length xs" "0 < k \<longrightarrow> lt (xs ! (k - 1)) key" "k < length xs \<longrightarrow> \<not> lt (xs ! k) key"
    by (simp_all add: k_def)
  have 1: "adj (last (take k xs)) key" if "take k xs \<noteq> []"
  proof -
    from that have "0 < k" by (cases k) auto
    with p have "last (take k xs) = xs ! (k - 1)" "lt (xs ! (k - 1)) key"
      by (simp_all add: last_take_nth)
    then show ?thesis using justified_lt [OF J] by simp
  qed
  have 2: "adj key (hd (drop k xs))" if "drop k xs \<noteq> []"
  proof -
    from that have "k < length xs" by simp
    with p have "hd (drop k xs) = xs ! k" "\<not> lt (xs ! k) key" by (simp_all add: hd_drop_nth)
    then show ?thesis using justified_ge [OF J] by simp
  qed
  from 1 2 show ?thesis unfolding k_def by blast
qed

lemma successively_split:
  "successively R (xs @ ys) \<Longrightarrow> successively R xs \<and> successively R ys"
  by (simp add: successively_append_iff)

lemma successively_link:
  "successively R (xs @ ys) \<Longrightarrow> xs \<noteq> [] \<Longrightarrow> ys \<noteq> [] \<Longrightarrow> R (last xs) (hd ys)"
  by (simp add: successively_append_iff)

lemma glue_overlap:
  "successively R (xs @ [a]) \<Longrightarrow> successively R (a # ys) \<Longrightarrow> successively R (xs @ a # ys)"
  by (simp add: successively_append_iff)

subsection \<open>Merging from the left\<close>

lemma lowGallopStep_spec:
  assumes J: "justified lt adj" and R: "lowReady adj as bs"
  shows "case lowGallopStep lt as bs of
           Done out \<Rightarrow> merged adj as bs out
         | More out as' bs' nA nB \<Rightarrow>
             successively adj out \<and> out \<noteq> [] \<and> (hd out = hd as \<or> hd out = hd bs)
             \<and> lowReady adj as' bs' \<and> adj (last out) (hd as') \<and> adj (last out) (hd bs')
             \<and> last as' = last as \<and> last bs' = last bs"
proof -
  from R have sa: "successively adj as" and sb: "successively adj bs" and la: "1 < length as"
    and nb: "bs \<noteq> []" and lb: "adj (last bs) (last as)"
    by (auto simp: lowReady_def)
  obtain b bs1 where bs: "bs = b # bs1" using nb by (cases bs) auto
  define k where "k = GallopRight lt b as 0"
  define outA where "outA = take k as"
  define as1 where "as1 = drop k as"
  define k2 where "k2 = GallopLeft lt (hd as1) bs1 0"
  define outB where "outB = take k2 bs1"
  define bs2 where "bs2 = drop k2 bs1"
  define a where "a = hd as1"
  define as2 where "as2 = tl as1"
  have step: "lowGallopStep lt as bs =
     (if 0 < k \<and> length as1 = 1 then Done (outA @ bs @ as1)
      else if 0 < k \<and> as1 = [] then Done (outA @ bs)
      else if bs1 = [] then Done (outA @ b # as1)
      else if 0 < k2 \<and> bs2 = [] then Done (outA @ b # outB @ as1)
      else if length as2 = 1 then Done (outA @ b # outB @ a # bs2 @ as2)
      else More (outA @ b # outB @ [a]) as2 bs2 k k2)"
    by (simp add: lowGallopStep_def Let_def k_def outA_def as1_def k2_def outB_def bs2_def
        a_def as2_def bs)
  have as_eq: "as = outA @ as1" by (simp add: outA_def as1_def)
  have bs1_eq: "bs1 = outB @ bs2" by (simp add: outB_def bs2_def)
  from sa as_eq have sA: "successively adj outA" "successively adj as1"
    using successively_split [of adj outA as1] by simp_all
  from sb bs have sb1: "successively adj bs1" by (cases bs1) simp_all
  from sb1 bs1_eq have sB: "successively adj outB" "successively adj bs2"
    using successively_split [of adj outB bs2] by simp_all
  have sbB: "successively adj (b # outB)"
  proof -
    from sb bs bs1_eq have "successively adj ((b # outB) @ bs2)" by simp
    then show ?thesis by (rule successively_split [THEN conjunct1])
  qed
  from la have h: "0 < length as" by (cases as) auto
  from GallopRight_split [OF J h, of b]
  have F1: "outA \<noteq> [] \<Longrightarrow> adj (last outA) b" and F2: "as1 \<noteq> [] \<Longrightarrow> adj b (hd as1)"
    by (simp_all add: k_def outA_def as1_def)
  from la have na: "as \<noteq> []" by (cases as) auto
  have k0: "0 < k \<longleftrightarrow> outA \<noteq> []" using na by (auto simp: outA_def)
  have hdA: "outA \<noteq> [] \<Longrightarrow> hd outA = hd as" using as_eq by (cases outA) auto
  have lastA: "as1 \<noteq> [] \<Longrightarrow> last as1 = last as" using as_eq by simp
  have lastB: "bs2 \<noteq> [] \<Longrightarrow> last bs2 = last bs" using bs bs1_eq by simp
  show ?thesis
  proof (cases "0 < k \<and> length as1 = 1")
    case True
    then obtain x where x: "as1 = [x]" by (cases as1) auto
    with lastA have xl: "x = last as" by simp
    from True k0 have oA: "outA \<noteq> []" by simp
    have "successively adj (bs @ as1)"
      using sb lb nb by (simp add: successively_append_iff x xl)
    then have "successively adj (outA @ bs @ as1)"
      using sA(1) F1 [OF oA] by (simp add: successively_append_iff bs)
    then have "merged adj as bs (outA @ bs @ as1)"
      using oA hdA x xl by (simp add: merged_def)
    with True show ?thesis by (auto simp: step)
  next
    case n1: False
    show ?thesis
    proof (cases "0 < k \<and> as1 = []")
      case True
      from True k0 have oA: "outA \<noteq> []" by simp
      have "successively adj (outA @ bs)"
        using sA(1) sb F1 [OF oA] by (simp add: successively_append_iff bs)
      then have "merged adj as bs (outA @ bs)"
        using oA hdA nb by (simp add: merged_def)
      with True n1 show ?thesis by (auto simp: step)
    next
      case n2: False
      have l1: "1 < length as1"
      proof (cases "0 < k")
        case True
        with n1 n2 show ?thesis by (cases as1) auto
      next
        case False
        then show ?thesis using la by (simp add: as1_def)
      qed
      then have a1: "as1 \<noteq> []" by auto
      have as1_eq: "as1 = a # as2" using a1 by (simp add: a_def as2_def)
      have a2: "as2 \<noteq> []" using l1 as1_eq by auto
      have la2: "last as2 = last as" using lastA [OF a1] as1_eq a2 by simp
      have sa2: "successively adj (a # as2)" using sA(2) as1_eq by simp
      have ba: "adj b a" using F2 [OF a1] as1_eq by simp
      have hdo: "hd (outA @ b # zs) = hd as \<or> hd (outA @ b # zs) = hd bs" for zs
        using hdA bs by (cases outA) auto
      have front: "successively adj (outA @ b # zs)" if "successively adj (b # zs)" for zs
        using sA(1) that F1 by (auto simp: successively_append_iff)
      show ?thesis
      proof (cases "bs1 = []")
        case True
        have "successively adj (b # as1)" using sa2 ba by (simp add: as1_eq)
        then have "successively adj (outA @ b # as1)" by (rule front)
        then have "merged adj as bs (outA @ b # as1)"
          using hdo [of as1] a1 lastA by (simp add: merged_def)
        with True n1 n2 show ?thesis by (auto simp: step)
      next
        case n3: False
        then have h2: "0 < length bs1" by simp
        from GallopLeft_split [OF J h2, of a]
        have G1: "outB \<noteq> [] \<Longrightarrow> adj (last outB) a" and G2: "bs2 \<noteq> [] \<Longrightarrow> adj a (hd bs2)"
          by (simp_all add: k2_def outB_def bs2_def a_def)
        have k20: "0 < k2 \<longleftrightarrow> outB \<noteq> []" using n3 by (auto simp: outB_def)
        have Ba: "successively adj ((b # outB) @ [a])"
        proof (rule glue_snoc [OF sbB])
          show "adj (last (b # outB)) a" using G1 ba by simp
        qed
        show ?thesis
        proof (cases "0 < k2 \<and> bs2 = []")
          case True
          have "successively adj ((b # outB) @ a # as2)"
            using Ba sa2 by (rule glue_overlap)
          then have "successively adj (b # outB @ as1)" by (simp add: as1_eq)
          then have "successively adj (outA @ b # outB @ as1)" by (rule front)
          then have "merged adj as bs (outA @ b # outB @ as1)"
            using hdo [of "outB @ as1"] a1 lastA by (simp add: merged_def)
          with True n1 n2 n3 show ?thesis by (auto simp: step)
        next
          case n4: False
          have b2: "bs2 \<noteq> []"
          proof (cases "0 < k2")
            case True
            with n4 show ?thesis by simp
          next
            case False
            then show ?thesis using n3 by (simp add: bs2_def)
          qed
          show ?thesis
          proof (cases "length as2 = 1")
            case True
            then obtain y where y: "as2 = [y]" by (cases as2) auto
            with la2 have yl: "y = last as" by simp
            have "successively adj (bs2 @ as2)"
              using sB(2) lb lastB [OF b2] b2 by (simp add: successively_append_iff y yl)
            then have "successively adj (a # bs2 @ as2)"
              using G2 [OF b2] b2 by (cases bs2) simp_all
            with Ba have "successively adj ((b # outB) @ a # bs2 @ as2)"
              by (rule glue_overlap)
            then have "successively adj (b # outB @ a # bs2 @ as2)" by simp
            then have "successively adj (outA @ b # outB @ a # bs2 @ as2)" by (rule front)
            then have "merged adj as bs (outA @ b # outB @ a # bs2 @ as2)"
              using hdo [of "outB @ a # bs2 @ as2"] y yl by (simp add: merged_def)
            with True n1 n2 n3 n4 show ?thesis by (auto simp: step)
          next
            case n5: False
            have "successively adj (b # outB @ [a])" using Ba by simp
            then have s: "successively adj (outA @ b # outB @ [a])" by (rule front)
            have l2: "1 < length as2" using a2 n5 by (cases as2) auto
            have r: "lowReady adj as2 bs2"
              using sa2 sB(2) l2 b2 lb la2 lastB [OF b2]
              by (cases as2) (simp_all add: lowReady_def)
            have e: "adj a (hd as2)" using sa2 a2 by (cases as2) simp_all
            from s r e G2 [OF b2] hdo [of "outB @ [a]"] la2 lastB [OF b2] n1 n2 n3 n4 n5
            show ?thesis by (auto simp: step)
          qed
        qed
      qed
    qed
  qed
qed

lemma lowOne_lowGallop_spec:
  "justified lt adj \<Longrightarrow> lowReady adj as bs
   \<Longrightarrow> merged adj as bs (fst (lowOne lt minGallop nofWinsA nofWinsB as bs))"
  "justified lt adj \<Longrightarrow> lowReady adj as bs
   \<Longrightarrow> merged adj as bs (fst (lowGallop lt minGallop as bs))"
proof (induction lt minGallop nofWinsA nofWinsB as bs and lt minGallop as bs
    rule: lowOne_lowGallop.induct)
  case (1 lt minGallop nofWinsA nofWinsB bs)
  then show ?case by (simp add: lowReady_def)
next
  case (2 lt minGallop nofWinsA nofWinsB a as)
  then show ?case by (simp add: lowReady_def)
next
  case (3 lt minGallop nofWinsA nofWinsB a as b bs)
  note J = "3.prems"(1)
  from "3.prems"(2) have sa: "successively adj (a # as)" and sb: "successively adj (b # bs)"
    and la: "as \<noteq> []" and lb: "adj (last (b # bs)) (last (a # as))"
    by (auto simp: lowReady_def)
  show ?case
  proof (cases "lt b a")
    case True
    then have ba: "adj b a" using justified_lt [OF J] by simp
    show ?thesis
    proof (cases "bs = []")
      case e: True
      with True sa ba la show ?thesis
        by (simp add: lowOne.simps merged_def)
    next
      case ne: False
      have r: "lowReady adj (a # as) bs"
        using sa sb la lb ne by (cases bs) (simp_all add: lowReady_def)
      have sbs: "adj b (hd bs)" using sb ne by (cases bs) simp_all
      have compose: "merged adj (a # as) (b # bs) (b # rest)" if "merged adj (a # as) bs rest" for rest
        using that ba sbs ne by (cases rest) (auto simp: merged_def)
      show ?thesis
      proof (cases "Suc nofWinsB \<ge> minGallop")
        case g: True
        from "3.IH"(1) [OF True ne g J r] compose True ne g show ?thesis
          by (simp add: lowOne.simps prepend_def)
      next
        case g: False
        from "3.IH"(2) [OF True ne g J r] compose True ne g show ?thesis
          by (simp add: lowOne.simps prepend_def)
      qed
    qed
  next
    case False
    then have ab: "adj a b" using justified_ge [OF J] by simp
    show ?thesis
    proof (cases "length as = 1")
      case e: True
      then obtain y where y: "as = [y]" by (cases as) auto
      have "adj (last (b # bs)) y" using lb y by simp
      then have "successively adj ((b # bs) @ [y])" using sb by (intro glue_snoc)
      then have "successively adj (a # (b # bs) @ as)" using ab y by simp
      with False e y show ?thesis
        by (simp add: lowOne.simps merged_def)
    next
      case ne: False
      have r: "lowReady adj as (b # bs)"
        using sa sb la lb ne by (cases as) (simp_all add: lowReady_def)
      have sas: "adj a (hd as)" using sa la by (cases as) simp_all
      have compose: "merged adj (a # as) (b # bs) (a # rest)" if "merged adj as (b # bs) rest" for rest
        using that ab sas la by (cases rest) (auto simp: merged_def)
      show ?thesis
      proof (cases "Suc nofWinsA \<ge> minGallop")
        case g: True
        from "3.IH"(3) [OF False ne g J r] compose False ne g show ?thesis
          by (simp add: lowOne.simps prepend_def)
      next
        case g: False
        from "3.IH"(4) [OF False ne g J r] compose False ne g show ?thesis
          by (simp add: lowOne.simps prepend_def)
      qed
    qed
  qed
next
  case (4 lt minGallop as bs)
  note J = "4.prems"(1)
  note R = "4.prems"(2)
  define g where "g = max 1 (minGallop - 1)"
  show ?case
  proof (cases "lowGallopStep lt as bs")
    case (Done out)
    with lowGallopStep_spec [OF J R] show ?thesis
      by (simp add: lowGallop.simps [of lt minGallop as bs] Let_def)
  next
    case (More out as' bs' nA nB)
    with lowGallopStep_spec [OF J R]
    have so: "successively adj out" and no: "out \<noteq> []"
      and ho: "hd out = hd as \<or> hd out = hd bs" and r: "lowReady adj as' bs'"
      and ea: "adj (last out) (hd as')" and eb: "adj (last out) (hd bs')"
      and la: "last as' = last as" and lb: "last bs' = last bs"
      by simp_all
    have compose: "merged adj as bs (out @ rest)" if "merged adj as' bs' rest" for rest
    proof -
      from that have sr: "successively adj rest" and nr: "rest \<noteq> []"
        and hr: "hd rest = hd as' \<or> hd rest = hd bs'"
        and lr: "last rest = last as' \<or> last rest = last bs'"
        by (auto simp: merged_def)
      from hr ea eb have "adj (last out) (hd rest)" by auto
      with so sr have "successively adj (out @ rest)" by (simp add: successively_append_iff)
      with no nr ho lr la lb show ?thesis by (auto simp: merged_def)
    qed
    show ?thesis
    proof (cases "nA \<ge> kMinGallopWins \<or> nB \<ge> kMinGallopWins")
      case True
      from "4.IH"(1) [OF g_def More True J r] compose More True show ?thesis
        by (simp add: lowGallop.simps [of lt minGallop as bs] Let_def prepend_def g_def)
    next
      case False
      from "4.IH"(2) [OF g_def More False J r] compose More False show ?thesis
        by (simp add: lowGallop.simps [of lt minGallop as bs] Let_def prepend_def g_def)
    qed
  qed
qed

subsection \<open>Merging from the right\<close>

lemma highGallopStep_spec:
  assumes J: "justified lt adj" and R: "highReady adj as bs"
  shows "case highGallopStep lt as bs of
           Done out \<Rightarrow> merged adj as bs out
         | More out as' bs' nA nB \<Rightarrow>
             successively adj out \<and> out \<noteq> [] \<and> (last out = last as \<or> last out = last bs)
             \<and> highReady adj as' bs' \<and> adj (last as') (hd out) \<and> adj (last bs') (hd out)
             \<and> hd as' = hd as \<and> hd bs' = hd bs"
proof -
  from R have sa: "successively adj as" and sb: "successively adj bs" and na: "as \<noteq> []"
    and lb: "1 < length bs" and hb: "adj (hd bs) (hd as)"
    by (auto simp: highReady_def)
  define b where "b = last bs"
  define bs1 where "bs1 = butlast bs"
  define k where "k = GallopRight lt b as (length as - 1)"
  define outA where "outA = drop k as"
  define as1 where "as1 = take k as"
  define k2 where "k2 = GallopLeft lt (last as1) bs1 (length bs1 - 1)"
  define outB where "outB = drop k2 bs1"
  define bs2 where "bs2 = take k2 bs1"
  define a where "a = last as1"
  define as2 where "as2 = butlast as1"
  have step: "highGallopStep lt as bs =
     (if 0 < length as - k \<and> as1 = [] then Done (bs @ outA)
      else if length bs1 = 1 then Done (bs1 @ as1 @ b # outA)
      else if 0 < length bs1 - k2 \<and> length bs2 = 1 then Done (bs2 @ as1 @ outB @ b # outA)
      else if 0 < length bs1 - k2 \<and> bs2 = [] then Done (as1 @ outB @ b # outA)
      else if as2 = [] then Done (bs2 @ a # outB @ b # outA)
      else More (a # outB @ b # outA) as2 bs2 (length as - k) (length bs1 - k2))"
    by (simp only: highGallopStep_def Let_def b_def bs1_def k_def outA_def as1_def k2_def
        outB_def bs2_def a_def as2_def)
  from lb have nbs: "bs \<noteq> []" by (cases bs) auto
  have bs: "bs = bs1 @ [b]" using nbs by (simp add: b_def bs1_def)
  have n1b: "bs1 \<noteq> []" using lb bs by (cases bs1) auto
  have hdB: "hd bs1 = hd bs" using bs n1b by (cases bs1) auto
  have as_eq: "as = as1 @ outA" by (simp add: outA_def as1_def)
  have bs1_eq: "bs1 = bs2 @ outB" by (simp add: outB_def bs2_def)
  from sa as_eq have sA: "successively adj as1" "successively adj outA"
    using successively_split [of adj as1 outA] by simp_all
  have sB2: "successively adj bs2" and sBb: "successively adj (outB @ [b])"
  proof -
    from sb bs bs1_eq have "successively adj (bs2 @ (outB @ [b]))" by simp
    then show "successively adj bs2" "successively adj (outB @ [b])"
      using successively_split [of adj bs2 "outB @ [b]"] by simp_all
  qed
  from na have h: "length as - 1 < length as" by (cases as) auto
  from GallopRight_split [OF J h, of b]
  have F1: "as1 \<noteq> [] \<Longrightarrow> adj (last as1) b" and F2: "outA \<noteq> [] \<Longrightarrow> adj b (hd outA)"
    by (simp_all add: k_def outA_def as1_def)
  have kn: "0 < length as - k \<longleftrightarrow> outA \<noteq> []" by (auto simp: outA_def)
  have hdA: "as1 \<noteq> [] \<Longrightarrow> hd as1 = hd as" using as_eq by (cases as1) auto
  have lastA: "outA \<noteq> [] \<Longrightarrow> last outA = last as" using as_eq by simp
  have sbo: "successively adj (b # outA)" using sA(2) F2 by (intro glue_Cons)
  have fin: "successively adj (zs @ b # outA)" if "successively adj (zs @ [b])" for zs
    using that sbo by (rule glue_overlap)
  have lasto: "last (zs @ b # outA) = last as \<or> last (zs @ b # outA) = last bs" for zs
    using lastA bs by (cases "outA = []") auto
  show ?thesis
  proof (cases "0 < length as - k \<and> as1 = []")
    case True
    with kn have oA: "outA \<noteq> []" by simp
    have "successively adj (bs1 @ b # outA)" using sb bs by (intro fin) simp
    then have "successively adj (bs @ outA)" using bs by simp
    then have "merged adj as bs (bs @ outA)"
      using oA lastA nbs by (simp add: merged_def)
    with True show ?thesis by (auto simp: step)
  next
    case n1: False
    have a1: "as1 \<noteq> []"
    proof (cases "0 < length as - k")
      case True
      with n1 show ?thesis by simp
    next
      case False
      then show ?thesis using na by (simp add: as1_def)
    qed
    have as1_eq: "as1 = as2 @ [a]" using a1 by (simp add: a_def as2_def)
    have ab: "adj a b" using F1 [OF a1] by (simp add: a_def)
    have xa: "adj (hd bs) (hd as1)" using hb hdA [OF a1] by simp
    have as1b: "successively adj (as1 @ [b])" using sA(1) F1 by (intro glue_snoc)
    show ?thesis
    proof (cases "length bs1 = 1")
      case True
      then obtain x where x: "bs1 = [x]" by (cases bs1) auto
      with hdB have xh: "x = hd bs" by simp
      have "successively adj (x # as1 @ [b])"
        using as1b xa a1 by (intro glue_Cons) (simp_all add: xh)
      then have "successively adj ((x # as1) @ b # outA)" by (intro fin) simp
      then have "merged adj as bs (bs1 @ as1 @ b # outA)"
        using lasto [of "x # as1"] x xh by (simp add: merged_def)
      with True n1 show ?thesis by (auto simp: step)
    next
      case n2: False
      have l1: "1 < length bs1" using n1b n2 by (cases bs1) auto
      then have h2: "length bs1 - 1 < length bs1" by simp
      from GallopLeft_split [OF J h2, of a]
      have G1: "bs2 \<noteq> [] \<Longrightarrow> adj (last bs2) a" and G2: "outB \<noteq> [] \<Longrightarrow> adj a (hd outB)"
        by (simp_all add: k2_def outB_def bs2_def a_def)
      have k2n: "0 < length bs1 - k2 \<longleftrightarrow> outB \<noteq> []" by (auto simp: outB_def)
      have hdB2: "bs2 \<noteq> [] \<Longrightarrow> hd bs2 = hd bs" using bs1_eq hdB by (cases bs2) auto
      have aB: "successively adj (a # outB @ [b])"
        using sBb G2 ab by (intro glue_Cons) (auto simp: hd_append)
      have as1B: "successively adj (as1 @ outB @ [b])"
      proof -
        from sA(1) as1_eq have "successively adj (as2 @ [a])" by simp
        then have "successively adj (as2 @ a # outB @ [b])" using aB by (rule glue_overlap)
        then show ?thesis by (simp add: as1_eq)
      qed
      show ?thesis
      proof (cases "0 < length bs1 - k2 \<and> length bs2 = 1")
        case True
        then obtain x where x: "bs2 = [x]" by (cases bs2) auto
        with hdB2 have xh: "x = hd bs" by simp
        have "successively adj (x # as1 @ outB @ [b])"
          using as1B xa a1 by (intro glue_Cons) (simp_all add: xh)
        then have "successively adj ((x # as1 @ outB) @ b # outA)" by (intro fin) simp
        then have "merged adj as bs (bs2 @ as1 @ outB @ b # outA)"
          using lasto [of "x # as1 @ outB"] x xh by (simp add: merged_def)
        with True n1 n2 show ?thesis by (auto simp: step)
      next
        case n3: False
        show ?thesis
        proof (cases "0 < length bs1 - k2 \<and> bs2 = []")
          case True
          have "successively adj ((as1 @ outB) @ b # outA)" using as1B by (intro fin) simp
          then have "merged adj as bs (as1 @ outB @ b # outA)"
            using lasto [of "as1 @ outB"] a1 hdA by (simp add: merged_def)
          with True n1 n2 n3 show ?thesis by (auto simp: step)
        next
          case n4: False
          have l2: "1 < length bs2"
          proof (cases "0 < length bs1 - k2")
            case True
            with n3 n4 show ?thesis by (cases bs2) auto
          next
            case False
            then show ?thesis using l1 by (simp add: bs2_def)
          qed
          then have b2: "bs2 \<noteq> []" by (cases bs2) auto
          have bs2a: "successively adj (bs2 @ a # outB @ [b])"
            using sB2 aB G1 [OF b2] by (intro glue) simp_all
          show ?thesis
          proof (cases "as2 = []")
            case True
            have "successively adj ((bs2 @ a # outB) @ b # outA)" using bs2a by (intro fin) simp
            then have "merged adj as bs (bs2 @ a # outB @ b # outA)"
              using lasto [of "bs2 @ a # outB"] b2 hdB2 by (simp add: merged_def)
            with True n1 n2 n3 n4 show ?thesis by (auto simp: step)
          next
            case n5: False
            have "successively adj ((a # outB) @ b # outA)" using aB by (intro fin) simp
            then have s: "successively adj (a # outB @ b # outA)" by simp
            have sa2: "successively adj as2"
              using sA(1) as1_eq successively_split [of adj as2 "[a]"] by simp
            have ha2: "hd as2 = hd as" using hdA [OF a1] as1_eq n5 by (cases as2) auto
            have r: "highReady adj as2 bs2"
              using sa2 sB2 n5 l2 hb ha2 hdB2 [OF b2] by (simp add: highReady_def)
            have e: "adj (last as2) a"
              using sA(1) n5 successively_link [of adj as2 "[a]"] by (simp add: as1_eq)
            from s r e G1 [OF b2] lasto [of "a # outB"] ha2 hdB2 [OF b2] n1 n2 n3 n4 n5
            show ?thesis by (auto simp: step)
          qed
        qed
      qed
    qed
  qed
qed

lemma highOne_highGallop_spec:
  "justified lt adj \<Longrightarrow> highReady adj as bs
   \<Longrightarrow> merged adj as bs (fst (highOne lt minGallop nofWinsA nofWinsB as bs))"
  "justified lt adj \<Longrightarrow> highReady adj as bs
   \<Longrightarrow> merged adj as bs (fst (highGallop lt minGallop as bs))"
proof (induction lt minGallop nofWinsA nofWinsB as bs and lt minGallop as bs
    rule: highOne_highGallop.induct)
  case (1 lt minGallop nofWinsA nofWinsB as bs)
  note J = "1.prems"(1)
  from "1.prems"(2) have sa: "successively adj as" and sb: "successively adj bs"
    and na: "as \<noteq> []" and lb: "1 < length bs" and hb: "adj (hd bs) (hd as)"
    by (auto simp: highReady_def)
  from lb have nb: "bs \<noteq> []" by (cases bs) auto
  have ne: "\<not> (as = [] \<or> bs = [])" using na nb by simp
  have as_eq: "as = butlast as @ [last as]" using na by simp
  have bs_eq: "bs = butlast bs @ [last bs]" using nb by simp
  have nbb: "butlast bs \<noteq> []" using lb by (cases bs) auto
  have hdbb: "hd (butlast bs) = hd bs" using nbb bs_eq by (cases bs) auto
  show ?case
  proof (cases "lt (last bs) (last as)")
    case True
    then have ba: "adj (last bs) (last as)" using justified_lt [OF J] by simp
    show ?thesis
    proof (cases "butlast as = []")
      case e: True
      have "successively adj (bs @ [last as])" using sb ba by (intro glue_snoc)
      then have "merged adj as bs (bs @ [last as])" using nb by (simp add: merged_def)
      with True e ne show ?thesis
        by (simp add: highOne.simps [of lt minGallop nofWinsA nofWinsB as bs])
    next
      case n: False
      have hdba: "hd (butlast as) = hd as" using n as_eq by (cases as) auto
      have r: "highReady adj (butlast as) bs"
        using sa sb n lb hb hdba by (simp add: highReady_def successively_butlast)
      have e: "adj (last (butlast as)) (last as)"
        using sa n successively_link [of adj "butlast as" "[last as]"] na by simp
      have compose: "merged adj as bs (rest @ [last as])" if "merged adj (butlast as) bs rest" for rest
      proof -
        from that have sr: "successively adj rest" and nr: "rest \<noteq> []"
          and hr: "hd rest = hd (butlast as) \<or> hd rest = hd bs"
          and lr: "last rest = last (butlast as) \<or> last rest = last bs"
          by (auto simp: merged_def)
        from lr e ba have "adj (last rest) (last as)" by auto
        with sr have "successively adj (rest @ [last as])" by (intro glue_snoc)
        with nr hr hdba show ?thesis by (auto simp: merged_def)
      qed
      show ?thesis
      proof (cases "Suc nofWinsA \<ge> minGallop")
        case g: True
        have "merged adj (butlast as) bs (fst (highGallop lt (minGallop + 1) (butlast as) bs))"
          using ne True n g J r by (intro "1.IH"(1)) simp_all
        with compose True n g ne show ?thesis
          by (simp add: highOne.simps [of lt minGallop nofWinsA nofWinsB as bs] append_to_def)
      next
        case g: False
        have "merged adj (butlast as) bs (fst (highOne lt minGallop (Suc nofWinsA) 0 (butlast as) bs))"
          using ne True n g J r by (intro "1.IH"(2)) simp_all
        with compose True n g ne show ?thesis
          by (simp add: highOne.simps [of lt minGallop nofWinsA nofWinsB as bs] append_to_def)
      qed
    qed
  next
    case False
    then have ab: "adj (last as) (last bs)" using justified_ge [OF J] by simp
    show ?thesis
    proof (cases "length (butlast bs) = 1")
      case e: True
      then obtain x where x: "butlast bs = [x]" by (cases "butlast bs") auto
      with hdbb have xh: "x = hd bs" by simp
      have "successively adj (as @ [last bs])" using sa ab by (intro glue_snoc)
      then have "successively adj (x # as @ [last bs])"
        using hb na by (intro glue_Cons) (simp_all add: xh)
      then have "merged adj as bs (butlast bs @ as @ [last bs])"
        using x xh by (simp add: merged_def)
      with False e ne show ?thesis
        by (simp add: highOne.simps [of lt minGallop nofWinsA nofWinsB as bs])
    next
      case n: False
      have l: "1 < length (butlast bs)" using nbb n by (cases "butlast bs") auto
      have r: "highReady adj as (butlast bs)"
        using sa sb na l hb hdbb by (simp add: highReady_def successively_butlast)
      have e: "adj (last (butlast bs)) (last bs)"
        using sb nbb successively_link [of adj "butlast bs" "[last bs]"] nb by simp
      have compose: "merged adj as bs (rest @ [last bs])" if "merged adj as (butlast bs) rest" for rest
      proof -
        from that have sr: "successively adj rest" and nr: "rest \<noteq> []"
          and hr: "hd rest = hd as \<or> hd rest = hd (butlast bs)"
          and lr: "last rest = last as \<or> last rest = last (butlast bs)"
          by (auto simp: merged_def)
        from lr e ab have "adj (last rest) (last bs)" by auto
        with sr have "successively adj (rest @ [last bs])" by (intro glue_snoc)
        with nr hr hdbb show ?thesis by (auto simp: merged_def)
      qed
      show ?thesis
      proof (cases "Suc nofWinsB \<ge> minGallop")
        case g: True
        have "merged adj as (butlast bs) (fst (highGallop lt (minGallop + 1) as (butlast bs)))"
          using ne False n g J r by (intro "1.IH"(3)) simp_all
        with compose False n g ne show ?thesis
          by (simp add: highOne.simps [of lt minGallop nofWinsA nofWinsB as bs] append_to_def)
      next
        case g: False
        have "merged adj as (butlast bs) (fst (highOne lt minGallop 0 (Suc nofWinsB) as (butlast bs)))"
          using ne False n g J r by (intro "1.IH"(4)) simp_all
        with compose False n g ne show ?thesis
          by (simp add: highOne.simps [of lt minGallop nofWinsA nofWinsB as bs] append_to_def)
      qed
    qed
  qed
next
  case (2 lt minGallop as bs)
  note J = "2.prems"(1)
  note R = "2.prems"(2)
  define g where "g = max 1 (minGallop - 1)"
  show ?case
  proof (cases "highGallopStep lt as bs")
    case (Done out)
    with highGallopStep_spec [OF J R] show ?thesis
      by (simp add: highGallop.simps [of lt minGallop as bs] Let_def)
  next
    case (More out as' bs' nA nB)
    with highGallopStep_spec [OF J R]
    have so: "successively adj out" and no: "out \<noteq> []"
      and lo: "last out = last as \<or> last out = last bs" and r: "highReady adj as' bs'"
      and ea: "adj (last as') (hd out)" and eb: "adj (last bs') (hd out)"
      and ha: "hd as' = hd as" and hb: "hd bs' = hd bs"
      by simp_all
    have compose: "merged adj as bs (rest @ out)" if "merged adj as' bs' rest" for rest
    proof -
      from that have sr: "successively adj rest" and nr: "rest \<noteq> []"
        and hr: "hd rest = hd as' \<or> hd rest = hd bs'"
        and lr: "last rest = last as' \<or> last rest = last bs'"
        by (auto simp: merged_def)
      from lr ea eb have "adj (last rest) (hd out)" by auto
      with so sr have "successively adj (rest @ out)" by (simp add: successively_append_iff)
      with no nr lo hr ha hb show ?thesis by (auto simp: merged_def)
    qed
    show ?thesis
    proof (cases "nA \<ge> kMinGallopWins \<or> nB \<ge> kMinGallopWins")
      case True
      from "2.IH"(1) [OF g_def More True J r] compose More True show ?thesis
        by (simp add: highGallop.simps [of lt minGallop as bs] Let_def append_to_def g_def)
    next
      case False
      from "2.IH"(2) [OF g_def More False J r] compose More False show ?thesis
        by (simp add: highGallop.simps [of lt minGallop as bs] Let_def append_to_def g_def)
    qed
  qed
qed

subsection \<open>Merging two runs\<close>

lemma MergeLow_spec:
  assumes J: "justified lt adj" and R: "mergeReady adj as bs"
  shows "merged adj as bs (fst (MergeLow lt minGallop as bs))"
proof -
  from R have sa: "successively adj as" and sb: "successively adj bs" and na: "as \<noteq> []"
    and nb: "bs \<noteq> []" and hb: "adj (hd bs) (hd as)" and lb: "adj (last bs) (last as)"
    by (auto simp: mergeReady_def)
  obtain b bs1 where bs: "bs = b # bs1" using nb by (cases bs) auto
  show ?thesis
  proof (cases "bs1 = []")
    case True
    have "successively adj (b # as)" using sa hb bs by (intro glue_Cons) simp_all
    with True bs show ?thesis by (simp add: MergeLow_def merged_def)
  next
    case n1: False
    show ?thesis
    proof (cases "length as = 1")
      case True
      then obtain x where x: "as = [x]" by (cases as) auto
      have "successively adj (bs @ [x])" using sb lb x by (intro glue_snoc) simp_all
      with True n1 bs x show ?thesis by (simp add: MergeLow_def merged_def)
    next
      case n2: False
      have la: "1 < length as" using na n2 by (cases as) auto
      have r: "lowReady adj as bs1"
        using sa sb la n1 lb bs by (cases bs1) (simp_all add: lowReady_def)
      have e: "adj b (hd bs1)" using sb bs n1 by (cases bs1) simp_all
      from lowOne_lowGallop_spec(1) [OF J r, of minGallop 0 0]
      have m: "merged adj as bs1 (fst (lowOne lt minGallop 0 0 as bs1))" .
      define rest where "rest = fst (lowOne lt minGallop 0 0 as bs1)"
      from m have sr: "successively adj rest" and nr: "rest \<noteq> []"
        and hr: "hd rest = hd as \<or> hd rest = hd bs1"
        and lr: "last rest = last as \<or> last rest = last bs1"
        by (auto simp: merged_def rest_def)
      from hr hb e bs have "adj b (hd rest)" by auto
      with sr have "successively adj (b # rest)" by (intro glue_Cons)
      with nr lr bs n1 have "merged adj as bs (b # rest)" by (auto simp: merged_def)
      with n1 n2 bs show ?thesis by (simp add: MergeLow_def prepend_def rest_def)
    qed
  qed
qed

lemma MergeHigh_spec:
  assumes J: "justified lt adj" and R: "mergeReady adj as bs"
  shows "merged adj as bs (fst (MergeHigh lt minGallop as bs))"
proof -
  from R have sa: "successively adj as" and sb: "successively adj bs" and na: "as \<noteq> []"
    and nb: "bs \<noteq> []" and hb: "adj (hd bs) (hd as)" and lb: "adj (last bs) (last as)"
    by (auto simp: mergeReady_def)
  have as_eq: "as = butlast as @ [last as]" using na by simp
  show ?thesis
  proof (cases "butlast as = []")
    case True
    have "successively adj (bs @ [last as])" using sb lb by (intro glue_snoc)
    with True na nb show ?thesis by (simp add: MergeHigh_def merged_def)
  next
    case n1: False
    have hdba: "hd (butlast as) = hd as" using n1 as_eq by (cases as) auto
    show ?thesis
    proof (cases "length bs = 1")
      case True
      then obtain x where x: "bs = [x]" by (cases bs) auto
      have "successively adj (x # as)" using sa hb x na by (intro glue_Cons) simp_all
      with True n1 na x show ?thesis by (simp add: MergeHigh_def merged_def)
    next
      case n2: False
      have l: "1 < length bs" using nb n2 by (cases bs) auto
      have r: "highReady adj (butlast as) bs"
        using sa sb n1 l hb hdba by (simp add: highReady_def successively_butlast)
      have e: "adj (last (butlast as)) (last as)"
        using sa n1 successively_link [of adj "butlast as" "[last as]"] na by simp
      from highOne_highGallop_spec(1) [OF J r, of minGallop 0 0]
      have m: "merged adj (butlast as) bs (fst (highOne lt minGallop 0 0 (butlast as) bs))" .
      define rest where "rest = fst (highOne lt minGallop 0 0 (butlast as) bs)"
      from m have sr: "successively adj rest" and nr: "rest \<noteq> []"
        and hr: "hd rest = hd (butlast as) \<or> hd rest = hd bs"
        and lr: "last rest = last (butlast as) \<or> last rest = last bs"
        by (auto simp: merged_def rest_def)
      from lr lb e have "adj (last rest) (last as)" by auto
      with sr have "successively adj (rest @ [last as])" by (intro glue_snoc)
      with nr hr hdba have "merged adj as bs (rest @ [last as])" by (auto simp: merged_def)
      with n1 n2 na show ?thesis by (simp add: MergeHigh_def append_to_def rest_def)
    qed
  qed
qed

lemma mergeRuns_spec:
  assumes J: "justified lt adj"
    and sA: "successively adj runA" and sB: "successively adj runB"
    and nA: "runA \<noteq> []" and nB: "runB \<noteq> []"
  shows "successively adj (fst (mergeRuns lt minGallop runA runB))
       \<and> fst (mergeRuns lt minGallop runA runB) \<noteq> []"
proof -
  define k where "k = GallopRight lt (hd runB) runA 0"
  define pre where "pre = take k runA"
  define as where "as = drop k runA"
  define kb where "kb = GallopLeft lt (last as) runB (length runB - 1)"
  define bs where "bs = take kb runB"
  define post where "post = drop kb runB"
  define mid where "mid = fst (if length as \<le> length bs then MergeLow lt minGallop as bs
                                else MergeHigh lt minGallop as bs)"
  have run: "fst (mergeRuns lt minGallop runA runB) =
     (if as = [] then runA @ runB else if kb = 0 then runA @ runB else pre @ mid @ post)"
    by (simp add: mergeRuns_def Let_def k_def pre_def as_def kb_def bs_def post_def mid_def
        prepend_def append_to_def)
  have A_eq: "runA = pre @ as" by (simp add: pre_def as_def)
  have B_eq: "runB = bs @ post" by (simp add: bs_def post_def)
  from nA have h: "0 < length runA" by simp
  from GallopRight_split [OF J h, of "hd runB"]
  have P1: "pre \<noteq> [] \<Longrightarrow> adj (last pre) (hd runB)" and P2: "as \<noteq> [] \<Longrightarrow> adj (hd runB) (hd as)"
    by (simp_all add: k_def pre_def as_def)
  from nB have h2: "length runB - 1 < length runB" by simp
  from GallopLeft_split [OF J h2, of "last as"]
  have Q1: "bs \<noteq> [] \<Longrightarrow> adj (last bs) (last as)" and Q2: "post \<noteq> [] \<Longrightarrow> adj (last as) (hd post)"
    by (simp_all add: kb_def bs_def post_def)
  show ?thesis
  proof (cases "as = []")
    case True
    then have "pre = runA" using A_eq by simp
    with P1 nA have "adj (last runA) (hd runB)" by simp
    with sA sB have "successively adj (runA @ runB)" by (intro glue)
    with True nA show ?thesis by (simp add: run)
  next
    case n1: False
    have lastA: "last as = last runA" using A_eq n1 by simp
    show ?thesis
    proof (cases "kb = 0")
      case True
      then have "post = runB" by (simp add: post_def)
      with Q2 nB lastA have "adj (last runA) (hd runB)" by simp
      with sA sB have "successively adj (runA @ runB)" by (intro glue)
      with True n1 nA show ?thesis by (simp add: run)
    next
      case n2: False
      then have nbs: "bs \<noteq> []" using nB by (simp add: bs_def)
      have hdB: "hd bs = hd runB" using B_eq nbs by (cases bs) auto
      have sas: "successively adj as" "successively adj pre"
        using sA A_eq successively_split [of adj pre as] by simp_all
      have sbs: "successively adj bs" "successively adj post"
        using sB B_eq successively_split [of adj bs post] by simp_all
      have r: "mergeReady adj as bs"
        using sas(1) sbs(1) n1 nbs P2 [OF n1] Q1 [OF nbs] hdB by (simp add: mergeReady_def)
      have m: "merged adj as bs mid"
        unfolding mid_def using MergeLow_spec [OF J r] MergeHigh_spec [OF J r] by simp
      then have sm: "successively adj mid" and nm: "mid \<noteq> []"
        and hm: "hd mid = hd as \<or> hd mid = hd bs"
        and lm: "last mid = last as \<or> last mid = last bs"
        by (auto simp: merged_def)
      have e1: "adj (last pre) (hd mid)" if "pre \<noteq> []"
      proof -
        from sA A_eq that n1 have "adj (last pre) (hd as)"
          using successively_link [of adj pre as] by simp
        with hm P1 [OF that] hdB show ?thesis by auto
      qed
      have e2: "adj (last mid) (hd post)" if "post \<noteq> []"
      proof -
        from sB B_eq that nbs have "adj (last bs) (hd post)"
          using successively_link [of adj bs post] by simp
        with lm Q2 [OF that] show ?thesis by auto
      qed
      have mp: "successively adj (mid @ post)" using sm sbs(2) e2 by (rule glue)
      have "successively adj (pre @ mid @ post)"
      proof (rule glue [OF sas(2) mp])
        assume "pre \<noteq> []"
        then show "adj (last pre) (hd (mid @ post))" using e1 nm by simp
      qed
      with n1 n2 nm show ?thesis by (simp add: run)
    qed
  qed
qed

subsection \<open>The stack of pending runs\<close>

lemma runsReady_nth: "runsReady adj rs \<Longrightarrow> i < length rs \<Longrightarrow> rs ! i \<noteq> [] \<and> successively adj (rs ! i)"
  by (simp add: runsReady_def list_all_length)

lemma runsReady_take: "runsReady adj rs \<Longrightarrow> runsReady adj (take i rs)"
  unfolding runsReady_def list_all_iff by (auto dest: in_set_takeD)

lemma runsReady_drop: "runsReady adj rs \<Longrightarrow> runsReady adj (drop i rs)"
  unfolding runsReady_def list_all_iff by (auto dest: in_set_dropD)

lemma MergeAt_ready:
  assumes J: "justified lt adj" and R: "runsReady adj rs" and i: "i + 1 < length rs"
  shows "runsReady adj (fst (MergeAt lt rs g i))"
proof -
  from i have i0: "i < length rs" by simp
  from mergeRuns_spec [OF J, of "rs ! i" "rs ! (i + 1)" g]
    runsReady_nth [OF R i0] runsReady_nth [OF R i]
  have m: "successively adj (fst (mergeRuns lt g (rs ! i) (rs ! (i + 1))))"
    "fst (mergeRuns lt g (rs ! i) (rs ! (i + 1))) \<noteq> []" by simp_all
  from runsReady_take [OF R, of i] runsReady_drop [OF R, of "i + 2"] m show ?thesis
    by (cases "mergeRuns lt g (rs ! i) (rs ! (i + 1))") (simp add: MergeAt_def runsReady_def)
qed

lemma MergeAt_length:
  "i + 1 < length rs \<Longrightarrow> length (fst (MergeAt lt rs g i)) = length rs - 1"
  by (auto simp: MergeAt_def split: prod.splits)

lemma MergeCollapse_ready:
  "justified lt adj \<Longrightarrow> runsReady adj rs \<Longrightarrow> runsReady adj (fst (MergeCollapse lt rs g))"
proof (induction lt rs g rule: MergeCollapse.induct)
  case (1 lt pendingRuns minGallop)
  note J = "1.prems"(1) and R = "1.prems"(2)
  show ?case
  proof (cases "length pendingRuns > 1")
    case False
    with R show ?thesis by (simp add: MergeCollapse.simps [of lt pendingRuns minGallop])
  next
    case True
    define n where "n = length pendingRuns - 2"
    define i where "i = (if length (pendingRuns ! (n - 1)) < length (pendingRuns ! (n + 1))
                         then n - 1 else n)"
    have i: "i + 1 < length pendingRuns" and n: "n + 1 < length pendingRuns"
      using True by (auto simp: i_def n_def)
    show ?thesis
    proof (cases "\<not> RunInvariantEstablished pendingRuns (n + 1)
                  \<or> \<not> RunInvariantEstablished pendingRuns n")
      case c: True
      obtain p g' where m: "MergeAt lt pendingRuns minGallop i = (p, g')"
        by (cases "MergeAt lt pendingRuns minGallop i")
      from MergeAt_ready [OF J R i, of minGallop] m have "runsReady adj p" by simp
      from "1.IH"(1) [OF True n_def c m [unfolded i_def, symmetric] J this] True c m
      show ?thesis
        by (auto simp: MergeCollapse.simps [of lt pendingRuns minGallop] Let_def i_def
            simp flip: n_def split: if_splits)
    next
      case c: False
      show ?thesis
      proof (cases "length (pendingRuns ! n) \<le> length (pendingRuns ! (n + 1))")
        case d: True
        obtain p g' where m: "MergeAt lt pendingRuns minGallop n = (p, g')"
          by (cases "MergeAt lt pendingRuns minGallop n")
        from MergeAt_ready [OF J R n, of minGallop] m have "runsReady adj p" by simp
        from "1.IH"(2) [OF True n_def c d m [symmetric] J this] True c d m
        show ?thesis
          by (simp add: MergeCollapse.simps [of lt pendingRuns minGallop] Let_def
              flip: n_def)
      next
        case d: False
        with True c R show ?thesis
          by (simp add: MergeCollapse.simps [of lt pendingRuns minGallop] Let_def
              flip: n_def)
      qed
    qed
  qed
qed

lemma MergeForceCollapse_ready:
  "justified lt adj \<Longrightarrow> runsReady adj rs
   \<Longrightarrow> runsReady adj (fst (MergeForceCollapse lt rs g))
     \<and> length (fst (MergeForceCollapse lt rs g)) \<le> 1"
proof (induction lt rs g rule: MergeForceCollapse.induct)
  case (1 lt pendingRuns minGallop)
  note J = "1.prems"(1) and R = "1.prems"(2)
  show ?case
  proof (cases "length pendingRuns > 1")
    case False
    with R show ?thesis by (simp add: MergeForceCollapse.simps [of lt pendingRuns minGallop])
  next
    case True
    define n where "n = length pendingRuns - 2"
    define i where "i = (if n > 0 \<and> length (pendingRuns ! (n - 1)) < length (pendingRuns ! (n + 1))
                         then n - 1 else n)"
    have i: "i + 1 < length pendingRuns"
      using True by (auto simp: i_def n_def)
    obtain p g' where m: "MergeAt lt pendingRuns minGallop i = (p, g')"
      by (cases "MergeAt lt pendingRuns minGallop i")
    from MergeAt_ready [OF J R i, of minGallop] m have "runsReady adj p" by simp
    from "1.IH" [OF True n_def m [unfolded i_def, symmetric] J this] True m
    show ?thesis
      by (auto simp: MergeForceCollapse.simps [of lt pendingRuns minGallop] Let_def i_def
          simp flip: n_def split: if_splits)
  qed
qed

lemma timLoop_ready:
  "justified lt adj \<Longrightarrow> runsReady adj pendingRuns
   \<Longrightarrow> runsReady adj (fst (timLoop lt minRunLength pendingRuns minGallop remaining))"
proof (induction lt minRunLength pendingRuns minGallop remaining rule: timLoop.induct)
  case (1 lt minRunLength pendingRuns minGallop remaining)
  note J = "1.prems"(1) and R = "1.prems"(2)
  show ?case
  proof (cases "remaining = []")
    case True
    with R show ?thesis by (subst timLoop.simps) simp
  next
    case False
    obtain run rest where c: "CountAndMakeRun lt remaining = (run, rest)"
      by (cases "CountAndMakeRun lt remaining")
    define extra where "extra = (if length run < minRunLength
                                 then min minRunLength (length remaining) - length run else 0)"
    define currentRun where "currentRun = (if length run < minRunLength
                                then BinaryInsertionSort lt run (take extra rest) else run)"
    obtain p g where m: "MergeCollapse lt (pendingRuns @ [currentRun]) minGallop = (p, g)"
      by (cases "MergeCollapse lt (pendingRuns @ [currentRun]) minGallop")
    have sr: "successively adj run" using CountAndMakeRun_ok [OF J, of remaining] c by simp
    have nr: "run \<noteq> []" using CountAndMakeRun_nonempty [OF c False] .
    have "currentRun \<noteq> [] \<and> successively adj currentRun"
      using sr nr BinaryInsertionSort_ok [OF J sr] BinaryInsertionSort_nonempty [OF nr]
      by (simp add: currentRun_def)
    with R have "runsReady adj (pendingRuns @ [currentRun])" by (simp add: runsReady_def)
    from MergeCollapse_ready [OF J this, of minGallop] m have rp: "runsReady adj p" by simp
    have eq: "timLoop lt minRunLength pendingRuns minGallop remaining
                = timLoop lt minRunLength p g (drop extra rest)"
      using False c m unfolding currentRun_def extra_def
      by (subst timLoop.simps) (simp add: Let_def)
    from "1.IH" [OF False c [symmetric] extra_def currentRun_def m [symmetric] J rp]
    show ?thesis unfolding eq .
  qed
qed

subsection \<open>The sorted array\<close>

lemma ArrayTimSort_adjacent:
  assumes J: "justified lt adj"
  shows "successively adj (ArrayTimSort lt xs)"
proof (cases "length xs < 2")
  case True
  then have "xs = [] \<or> (\<exists>x. xs = [x])" by (cases xs) (auto simp: length_Suc_conv)
  with True show ?thesis by (auto simp: ArrayTimSort_def)
next
  case False
  obtain p g where t: "timLoop lt (ComputeMinRunLength (length xs)) [] kMinGallopWins xs = (p, g)"
    by (cases "timLoop lt (ComputeMinRunLength (length xs)) [] kMinGallopWins xs")
  have "runsReady adj []" by (simp add: runsReady_def)
  from timLoop_ready [OF J this, of "ComputeMinRunLength (length xs)" kMinGallopWins xs] t
  have "runsReady adj p" by simp
  from MergeForceCollapse_ready [OF J this, of g]
  have r: "runsReady adj (fst (MergeForceCollapse lt p g))"
    and l: "length (fst (MergeForceCollapse lt p g)) \<le> 1" by simp_all
  have "successively adj (concat (fst (MergeForceCollapse lt p g)))"
  proof (cases "fst (MergeForceCollapse lt p g)")
    case Nil
    then show ?thesis by simp
  next
    case (Cons r1 rs)
    with l have "rs = []" by simp
    with Cons r show ?thesis by (simp add: runsReady_def)
  qed
  with False t show ?thesis by (simp add: ArrayTimSort_def)
qed

lemma ArrayTimSort_fixed:
  assumes "successively (\<lambda>a b. \<not> lt b a) xs"
  shows "ArrayTimSort lt xs = xs"
proof (cases "length xs < 2")
  case True
  then show ?thesis by (simp add: ArrayTimSort_def)
next
  case False
  then have ne: "xs \<noteq> []" by auto
  define m where "m = ComputeMinRunLength (length xs)"
  have c: "CountAndMakeRun lt xs = (xs, [])" using assms by (rule CountAndMakeRun_fixed)
  have mc: "MergeCollapse lt [xs] g = ([xs], g)" for g
    by (simp add: MergeCollapse.simps [of lt "[xs]" g])
  have t0: "timLoop lt m [xs] g [] = ([xs], g)" for g
    by (simp add: timLoop.simps [of lt m "[xs]" g "[]"])
  have "timLoop lt m [] kMinGallopWins xs = ([xs], kMinGallopWins)"
    using ne c mc t0 by (simp add: timLoop.simps [of lt m "[]" kMinGallopWins xs] Let_def)
  moreover have "MergeForceCollapse lt [xs] g = ([xs], g)" for g
    by (simp add: MergeForceCollapse.simps [of lt "[xs]" g])
  ultimately show ?thesis using False by (simp add: ArrayTimSort_def m_def)
qed

subsection \<open>Sorting twice, and where the marked elements go\<close>

lemma js_sort_idem:
  assumes "\<And>a b. isNegative (comparefn a b) \<Longrightarrow> \<not> isNegative (comparefn b a)"
  shows "js_sort comparefn (js_sort comparefn xs) = js_sort comparefn xs"
proof -
  define lt where "lt = (\<lambda>a b. isNegative (comparefn a b))"
  have "justified lt (\<lambda>a b. \<not> lt b a)"
    unfolding justified_def lt_def using assms by blast
  then have "successively (\<lambda>a b. \<not> lt b a) (ArrayTimSort lt xs)"
    by (rule ArrayTimSort_adjacent)
  then have "ArrayTimSort lt (ArrayTimSort lt xs) = ArrayTimSort lt xs"
    by (rule ArrayTimSort_fixed)
  then show ?thesis by (simp add: js_sort_def lt_def)
qed







subsection \<open>The comparator of applySorting\<close>

lemma num_sub_asym: "isNegative (num_sub x y) \<Longrightarrow> \<not> isNegative (num_sub y x)"
  by (cases x; cases y) auto

lemma comparator_desc:
  "\<not> nullish x \<Longrightarrow> \<not> nullish y \<Longrightarrow> comparator P True x y = comparator P False y x"
  by (cases x; cases y; simp add: Let_def nullish_def)

lemma comparator_null_first: "nullish x \<Longrightarrow> \<not> isNegative (comparator P d x y)"
  by (cases x) (auto simp: nullish_def)


lemma asymmetricD: "asymmetric P \<Longrightarrow> localeCompare P s t < 0 \<Longrightarrow> \<not> localeCompare P t s < 0"
  unfolding asymmetric_def by blast

lemma comparator_asc_asym:
  assumes "asymmetric P"
  shows "isNegative (comparator P False x y) \<Longrightarrow> \<not> isNegative (comparator P False y x)"
  by (cases x; cases y) (auto simp: Let_def dest: asymmetricD [OF assms] num_sub_asym)

lemma comparator_asym:
  assumes "asymmetric P" and "isNegative (comparator P d x y)"
  shows "\<not> isNegative (comparator P d y x)"
proof (cases "nullish x \<or> nullish y")
  case True
  then show ?thesis using assms(2) comparator_null_first [of x P d y] comparator_null_first [of y P d x]
    by blast
next
  case False
  show ?thesis
  proof (cases d)
    case True
    with False assms(2) have "isNegative (comparator P False y x)"
      using comparator_desc [of x y P] by simp
    then have "\<not> isNegative (comparator P False x y)" by (rule comparator_asc_asym [OF assms(1)])
    with True False show ?thesis using comparator_desc [of y x P] by simp
  next
    case d: False
    with assms(2) have "isNegative (comparator P False x y)" by simp
    then have "\<not> isNegative (comparator P False y x)" by (rule comparator_asc_asym [OF assms(1)])
    with d show ?thesis by simp
  qed
qed

lemma codeCompare_asym: "codeCompare s t < 0 \<Longrightarrow> \<not> codeCompare t s < 0"
  by (induction s t rule: codeCompare.induct) (auto split: if_splits)

lemma sample_asymmetric: "asymmetric samplePlatform"
  unfolding asymmetric_def samplePlatform_def using codeCompare_asym by simp



text \<open>
  C4. Sorting the output of \<^verbatim>\<open>applySorting\<close> again with the same sort string changes
  nothing, for every sequence of records of every length (also with several null or
  missing sort values and with values of different types, where the comparator is not
  transitive), provided the collation never orders two strings both ways.
\<close>

theorem sorting_idempotent:
  assumes "asymmetric P"
  shows "applySorting P (applySorting P items sortSpec) sortSpec = applySorting P items sortSpec"
proof (cases "sortSpec = []")
  case True
  then show ?thesis by (simp add: applySorting_def)
next
  case False
  have "js_sort (\<lambda>a b. comparator P (isDesc sortSpec) (getField P a (sortField sortSpec))
                                  (getField P b (sortField sortSpec)))
          (js_sort (\<lambda>a b. comparator P (isDesc sortSpec) (getField P a (sortField sortSpec))
                                  (getField P b (sortField sortSpec))) items)
        = js_sort (\<lambda>a b. comparator P (isDesc sortSpec) (getField P a (sortField sortSpec))
                                  (getField P b (sortField sortSpec))) items"
    by (rule js_sort_idem) (rule comparator_asym [OF assms])
  with False show ?thesis by (simp add: applySorting_def)
qed

theorem sorting_idempotent_witness:
  "asymmetric samplePlatform
   \<and> applySorting samplePlatform sampleMixed ''v,ASC''
       = [[(''v'', VNum (Fin 10))], [(''v'', VStr ''5'')], [(''v'', VNum (Fin 9))],
          [(''v'', VNull)], [(''w'', VStr ''x'')]]
   \<and> applySorting samplePlatform (applySorting samplePlatform sampleMixed ''v,ASC'') ''v,ASC''
       = applySorting samplePlatform sampleMixed ''v,ASC''
   \<and> length sampleLong = 64
   \<and> map (\<lambda>r. attribute r ''v'') (applySorting samplePlatform sampleLong ''v'')
       = map (\<lambda>n. VNum (Fin (of_nat n))) [100..<132] @ [VStr ''2'']
         @ map (\<lambda>n. VNum (Fin (of_nat n))) [5..<36]
   \<and> applySorting samplePlatform (applySorting samplePlatform sampleLong ''v'') ''v''
       = applySorting samplePlatform sampleLong ''v''"
proof -
  have "applySorting samplePlatform sampleMixed ''v,ASC''
       = [[(''v'', VNum (Fin 10))], [(''v'', VStr ''5'')], [(''v'', VNum (Fin 9))],
          [(''v'', VNull)], [(''w'', VStr ''x'')]]"
    unfolding sampleMixed_def by code_simp
  moreover have "length sampleLong = 64" by (simp add: sampleLong_def)
  moreover have "map (\<lambda>r. attribute r ''v'') (applySorting samplePlatform sampleLong ''v'')
       = map (\<lambda>n. VNum (Fin (of_nat n))) [100..<132] @ [VStr ''2'']
         @ map (\<lambda>n. VNum (Fin (of_nat n))) [5..<36]"
    by code_simp
  ultimately show ?thesis
    using sample_asymmetric sorting_idempotent [OF sample_asymmetric, of sampleMixed "''v,ASC''"]
      sorting_idempotent [OF sample_asymmetric, of sampleLong "''v''"]
    by simp
qed



section \<open>Filtering and the whole query\<close>

subsection \<open>What one filter string does to a scan query\<close>

lemma applyFilter_unrecognized:
  "filterOperator f \<notin> Some ` set recognized \<Longrightarrow> applyFilter P ft q f = Inr q"
  by (simp add: applyFilter_def recognized_def Let_def)

lemma applyFilter_between:
  "filterOperator f = Some ''between'' \<Longrightarrow>
   applyFilter P ft q f =
     (case filterValue f of
        None \<Rightarrow> Inl TypeError
      | Some v \<Rightarrow>
          if CHR '','' \<in> set v then
            (case those (map (decodeURIComponent P) (split_comma [] v)) of
               None \<Rightarrow> Inl URIError
             | Some ds \<Rightarrow>
                 Inr (chain q (CBetween (filterField f) (optStr (nth_opt ds 0)) (optStr (nth_opt ds 1)))))
          else Inr q)"
  by (simp add: applyFilter_def Let_def)

lemma converted_shape:
  "(\<exists>e. \<forall>q. converted P ft q field val mk = Inl e)
   \<or> (\<exists>cs. \<forall>q. converted P ft q field val mk = Inr (q\<lparr>conditions := conditions q @ cs\<rparr>))"
  unfolding converted_def chain_def by (cases "convertFilterValue P field val ft") auto

lemma applyFilter_shape:
  "(\<exists>e. \<forall>q. applyFilter P ft q f = Inl e)
   \<or> (\<exists>cs. \<forall>q. applyFilter P ft q f = Inr (q\<lparr>conditions := conditions q @ cs\<rparr>))"
proof -
  have none: "\<exists>cs. \<forall>q. (Inr q :: error + scanQuery) = Inr (q\<lparr>conditions := conditions q @ cs\<rparr>)"
    by (rule exI [of _ "[]"]) simp
  consider (conv) mk where "\<forall>q. applyFilter P ft q f = converted P ft q (filterField f) (filterValue f) mk"
    | (one) c where "\<forall>q. applyFilter P ft q f = Inr (chain q c)"
    | (between) "filterOperator f = Some ''between''"
    | (other) "\<forall>q. applyFilter P ft q f = Inr q"
  proof -
    have "filterOperator f = Some ''eq'' \<or> filterOperator f = Some ''ne''
        \<or> filterOperator f = Some ''cont'' \<or> filterOperator f = Some ''between''
        \<or> filterOperator f = Some ''gt'' \<or> filterOperator f = Some ''gte''
        \<or> filterOperator f = Some ''lt'' \<or> filterOperator f = Some ''lte''
        \<or> filterOperator f = Some ''isnull'' \<or> filterOperator f = Some ''notnull''
        \<or> filterOperator f \<notin> Some ` set recognized"
      by (auto simp: recognized_def)
    then show ?thesis
    proof (elim disjE)
      assume "filterOperator f = Some ''eq''"
      then have "\<forall>q. applyFilter P ft q f = converted P ft q (filterField f) (filterValue f) CEq"
        by (simp add: applyFilter_def Let_def)
      then show ?thesis by (rule conv)
    next
      assume "filterOperator f = Some ''ne''"
      then have "\<forall>q. applyFilter P ft q f = converted P ft q (filterField f) (filterValue f) CNe"
        by (simp add: applyFilter_def Let_def)
      then show ?thesis by (rule conv)
    next
      assume "filterOperator f = Some ''cont''"
      then have "\<forall>q. applyFilter P ft q f
                     = Inr (chain q (CContains (filterField f) (optStr (filterValue f))))"
        by (simp add: applyFilter_def Let_def)
      then show ?thesis by (rule one)
    next
      assume "filterOperator f = Some ''between''"
      then show ?thesis by (rule between)
    next
      assume "filterOperator f = Some ''gt''"
      then have "\<forall>q. applyFilter P ft q f = converted P ft q (filterField f) (filterValue f) CGt"
        by (simp add: applyFilter_def Let_def)
      then show ?thesis by (rule conv)
    next
      assume "filterOperator f = Some ''gte''"
      then have "\<forall>q. applyFilter P ft q f = converted P ft q (filterField f) (filterValue f) CGe"
        by (simp add: applyFilter_def Let_def)
      then show ?thesis by (rule conv)
    next
      assume "filterOperator f = Some ''lt''"
      then have "\<forall>q. applyFilter P ft q f = converted P ft q (filterField f) (filterValue f) CLt"
        by (simp add: applyFilter_def Let_def)
      then show ?thesis by (rule conv)
    next
      assume "filterOperator f = Some ''lte''"
      then have "\<forall>q. applyFilter P ft q f = converted P ft q (filterField f) (filterValue f) CLe"
        by (simp add: applyFilter_def Let_def)
      then show ?thesis by (rule conv)
    next
      assume "filterOperator f = Some ''isnull''"
      then have "\<forall>q. applyFilter P ft q f = Inr (chain q (CNull (filterField f)))"
        by (simp add: applyFilter_def Let_def)
      then show ?thesis by (rule one)
    next
      assume "filterOperator f = Some ''notnull''"
      then have "\<forall>q. applyFilter P ft q f = Inr (chain q (CNotNull (filterField f)))"
        by (simp add: applyFilter_def Let_def)
      then show ?thesis by (rule one)
    next
      assume "filterOperator f \<notin> Some ` set recognized"
      then have "\<forall>q. applyFilter P ft q f = Inr q" by (simp add: applyFilter_unrecognized)
      then show ?thesis by (rule other)
    qed
  qed
  then show ?thesis
  proof cases
    case conv
    then show ?thesis using converted_shape [of P ft "filterField f" "filterValue f" mk] by simp
  next
    case one
    have "\<forall>q. applyFilter P ft q f = Inr (q\<lparr>conditions := conditions q @ [c]\<rparr>)"
      using one by (simp add: chain_def)
    then show ?thesis by blast
  next
    case between
    show ?thesis
    proof (cases "filterValue f")
      case None
      then have "\<forall>q. applyFilter P ft q f = Inl TypeError"
        using between by (simp add: applyFilter_between)
      then show ?thesis by blast
    next
      case (Some v)
      show ?thesis
      proof (cases "CHR '','' \<in> set v")
        case False
        then have "\<forall>q. applyFilter P ft q f = Inr q"
          using between Some by (simp add: applyFilter_between)
        then show ?thesis using none by simp
      next
        case True
        show ?thesis
        proof (cases "those (map (decodeURIComponent P) (split_comma [] v))")
          case None
          then have "\<forall>q. applyFilter P ft q f = Inl URIError"
            using between Some True by (simp add: applyFilter_between)
          then show ?thesis by blast
        next
          case ds: (Some ds)
          then have "\<forall>q. applyFilter P ft q f
              = Inr (q\<lparr>conditions := conditions q
                     @ [CBetween (filterField f) (optStr (nth_opt ds 0)) (optStr (nth_opt ds 1))]\<rparr>)"
            using between Some True by (simp add: applyFilter_between chain_def)
          then show ?thesis by blast
        qed
      qed
    qed
  next
    case other
    then show ?thesis using none by simp
  qed
qed

lemma applyDynamoDBFilters_shape:
  "(\<exists>e. \<forall>q. applyDynamoDBFilters P q fs ft = Inl e)
   \<or> (\<exists>cs. \<forall>q. applyDynamoDBFilters P q fs ft = Inr (q\<lparr>conditions := conditions q @ cs\<rparr>))"
proof (induction fs)
  case Nil
  have "\<forall>q. applyDynamoDBFilters P q [] ft = Inr (q\<lparr>conditions := conditions q @ []\<rparr>)" by simp
  then show ?case by blast
next
  case (Cons f fs)
  from applyFilter_shape [of P ft f] show ?case
  proof
    assume "\<exists>e. \<forall>q. applyFilter P ft q f = Inl e"
    then obtain e where "\<forall>q. applyFilter P ft q f = Inl e" by blast
    then have "\<forall>q. applyDynamoDBFilters P q (f # fs) ft = Inl e" by simp
    then show ?thesis by blast
  next
    assume "\<exists>cs. \<forall>q. applyFilter P ft q f = Inr (q\<lparr>conditions := conditions q @ cs\<rparr>)"
    then obtain cs where cs: "\<forall>q. applyFilter P ft q f = Inr (q\<lparr>conditions := conditions q @ cs\<rparr>)"
      by blast
    from Cons.IH show ?thesis
    proof
      assume "\<exists>e. \<forall>q. applyDynamoDBFilters P q fs ft = Inl e"
      then obtain e where "\<forall>q. applyDynamoDBFilters P q fs ft = Inl e" by blast
      with cs have "\<forall>q. applyDynamoDBFilters P q (f # fs) ft = Inl e" by simp
      then show ?thesis by blast
    next
      assume "\<exists>ds. \<forall>q. applyDynamoDBFilters P q fs ft = Inr (q\<lparr>conditions := conditions q @ ds\<rparr>)"
      then obtain ds where "\<forall>q. applyDynamoDBFilters P q fs ft = Inr (q\<lparr>conditions := conditions q @ ds\<rparr>)"
        by blast
      with cs have "\<forall>q. applyDynamoDBFilters P q (f # fs) ft
                       = Inr (q\<lparr>conditions := conditions q @ (cs @ ds)\<rparr>)" by simp
      then show ?thesis by blast
    qed
  qed
qed

lemma applyDynamoDBFilters_append:
  "applyDynamoDBFilters P q (fs1 @ fs2) ft =
     (case applyDynamoDBFilters P q fs1 ft of
        Inl e \<Rightarrow> Inl e
      | Inr q' \<Rightarrow> applyDynamoDBFilters P q' fs2 ft)"
  by (induction fs1 arbitrary: q) (auto split: sum.splits)

lemma processQuery_unguarded:
  "processQuery P m filters ft sortSpec pageNo limit =
     (case applyDynamoDBFilters P (scan m) filters ft of
        Inl e \<Rightarrow> Inl e
      | Inr q \<Rightarrow>
          (case exec P q of
             Inl e \<Rightarrow> Inl e
           | Inr allData \<Rightarrow> Inr (applyPagination (applySorting P allData sortSpec) pageNo limit)))"
  by (cases filters) (simp_all add: processQuery_def)

lemma scan_shape: "(scan m)\<lparr>conditions := conditions (scan m) @ cs\<rparr> = \<lparr>target = m, conditions = cs\<rparr>"
  by (simp add: scan_def)

lemma exec_available:
  "failure m = None \<Longrightarrow>
   exec P \<lparr>target = m, conditions = cs\<rparr>
     = Inr (filter (\<lambda>r. list_all (\<lambda>c. holds P c r) cs) (contents m))"
  by (simp add: exec_def)

lemma exec_failing: "failure m = Some e \<Longrightarrow> exec P \<lparr>target = m, conditions = cs\<rparr> = Inl e"
  by (simp add: exec_def)

lemma filterRecords_cases:
  "(\<exists>e. applyDynamoDBFilters P (scan m) fs ft = Inl e \<and> filterRecords P m fs ft = Inl e)
   \<or> (\<exists>cs. applyDynamoDBFilters P (scan m) fs ft = Inr \<lparr>target = m, conditions = cs\<rparr>
          \<and> filterRecords P m fs ft = exec P \<lparr>target = m, conditions = cs\<rparr>)"
  using applyDynamoDBFilters_shape [of P fs ft]
  by (auto simp: filterRecords_def scan_shape)

lemma those_all_Some:
  "\<forall>p\<in>set ps. f p \<noteq> None \<Longrightarrow> \<exists>ds. those (map f ps) = Some ds"
  by (induction ps) auto

lemma split_comma_nonempty: "split_comma acc v \<noteq> []"
  by (induction v arbitrary: acc) auto

lemma split_comma_two:
  "CHR '','' \<in> set v \<Longrightarrow> \<exists>p0 p1 ps. split_comma acc v = p0 # p1 # ps"
proof (induction v arbitrary: acc)
  case Nil
  then show ?case by simp
next
  case (Cons c cs)
  show ?case
  proof (cases "c = CHR '',''")
    case True
    obtain p1 ps where "split_comma [] cs = p1 # ps"
      using split_comma_nonempty [of "[]" cs] by (cases "split_comma [] cs") auto
    with True show ?thesis by simp
  next
    case False
    with Cons.prems have "CHR '','' \<in> set cs" by simp
    from Cons.IH [OF this, of "c # acc"] False show ?thesis by simp
  qed
qed

lemma processQuery_drop:
  assumes "\<forall>q. applyFilter P ft q f = Inr q"
  shows "processQuery P m (fs1 @ f # fs2) ft sortSpec pageNo limit
         = processQuery P m (fs1 @ fs2) ft sortSpec pageNo limit"
proof -
  have step: "applyDynamoDBFilters P q (f # fs2) ft = applyDynamoDBFilters P q fs2 ft" for q
    using assms by simp
  have "applyDynamoDBFilters P (scan m) (fs1 @ f # fs2) ft
           = applyDynamoDBFilters P (scan m) (fs1 @ fs2) ft"
    unfolding applyDynamoDBFilters_append [of P "scan m" fs1] step ..
  then show ?thesis by (simp add: processQuery_unguarded)
qed


lemma filterRecords_single:
  "(\<exists>e. (\<forall>q. applyFilter P ft q f = Inl e) \<and> (\<forall>m. filterRecords P m [f] ft = Inl e))
   \<or> (\<exists>cs. (\<forall>q. applyFilter P ft q f = Inr (q\<lparr>conditions := conditions q @ cs\<rparr>))
          \<and> (\<forall>m. filterRecords P m [f] ft = exec P \<lparr>target = m, conditions = cs\<rparr>))"
  using applyFilter_shape [of P ft f]
  by (auto simp: filterRecords_def scan_shape)

lemma filter_twice:
  "filter (\<lambda>r. list_all (\<lambda>c. h c r) (cs1 @ cs2)) xs
   = filter (\<lambda>r. list_all (\<lambda>c. h c r) cs2) (filter (\<lambda>r. list_all (\<lambda>c. h c r) cs1) xs)"
  by (induction xs) auto

lemma two_conditions_compose:
  assumes "failure m = None"
  shows "filterRecords P m [c1, c2] ft =
           (case filterRecords P m [c1] ft of
              Inl e \<Rightarrow> Inl e
            | Inr rs \<Rightarrow> filterRecords P (m\<lparr>contents := rs\<rparr>) [c2] ft)"
proof -
  from filterRecords_single [of P ft c1] show ?thesis
  proof (elim disjE exE conjE)
    fix e assume "\<forall>q. applyFilter P ft q c1 = Inl e" "\<forall>m. filterRecords P m [c1] ft = Inl e"
    then show ?thesis by (simp add: filterRecords_def)
  next
    fix cs1
    assume a1: "\<forall>q. applyFilter P ft q c1 = Inr (q\<lparr>conditions := conditions q @ cs1\<rparr>)"
      and f1: "\<forall>m. filterRecords P m [c1] ft = exec P \<lparr>target = m, conditions = cs1\<rparr>"
    have r1: "filterRecords P m [c1] ft
              = Inr (filter (\<lambda>r. list_all (\<lambda>c. holds P c r) cs1) (contents m))"
      using f1 assms by (simp add: exec_available)
    from filterRecords_single [of P ft c2] show ?thesis
    proof (elim disjE exE conjE)
      fix e assume a2: "\<forall>q. applyFilter P ft q c2 = Inl e"
        and f2: "\<forall>m. filterRecords P m [c2] ft = Inl e"
      have "filterRecords P m [c1, c2] ft = Inl e" using a1 a2 by (simp add: filterRecords_def)
      then show ?thesis using r1 f2 by simp
    next
      fix cs2
      assume a2: "\<forall>q. applyFilter P ft q c2 = Inr (q\<lparr>conditions := conditions q @ cs2\<rparr>)"
        and f2: "\<forall>m. filterRecords P m [c2] ft = exec P \<lparr>target = m, conditions = cs2\<rparr>"
      have "filterRecords P m [c1, c2] ft = exec P \<lparr>target = m, conditions = cs1 @ cs2\<rparr>"
        using a1 a2 by (simp add: filterRecords_def scan_def)
      then have "filterRecords P m [c1, c2] ft
          = Inr (filter (\<lambda>r. list_all (\<lambda>c. holds P c r) (cs1 @ cs2)) (contents m))"
        using assms by (simp add: exec_available)
      moreover have "filterRecords P (m\<lparr>contents := filter (\<lambda>r. list_all (\<lambda>c. holds P c r) cs1) (contents m)\<rparr>) [c2] ft
          = Inr (filter (\<lambda>r. list_all (\<lambda>c. holds P c r) cs2)
                   (filter (\<lambda>r. list_all (\<lambda>c. holds P c r) cs1) (contents m)))"
        using f2 assms by (simp add: exec_available)
      ultimately show ?thesis using r1 by (simp add: filter_twice)
    qed
  qed
qed

lemma each_condition_holds:
  assumes "filterRecords P m filters ft = Inr rs" and "f \<in> set filters"
  shows "\<exists>rs1. filterRecords P m [f] ft = Inr rs1 \<and> set rs \<subseteq> set rs1"
proof -
  obtain fs1 fs2 where sp: "filters = fs1 @ f # fs2" using assms(2) by (auto dest: split_list)
  have build: "\<exists>q. applyDynamoDBFilters P (scan m) filters ft = Inr q"
    using assms(1) by (auto simp: filterRecords_def split: sum.splits)
  from applyDynamoDBFilters_shape [of P fs1 ft] build sp
  obtain cs1 where c1: "\<forall>q. applyDynamoDBFilters P q fs1 ft = Inr (q\<lparr>conditions := conditions q @ cs1\<rparr>)"
    by (auto simp: applyDynamoDBFilters_append)
  from applyFilter_shape [of P ft f] build sp c1
  obtain cs where c: "\<forall>q. applyFilter P ft q f = Inr (q\<lparr>conditions := conditions q @ cs\<rparr>)"
    by (auto simp: applyDynamoDBFilters_append)
  from applyDynamoDBFilters_shape [of P fs2 ft] build sp c1 c
  obtain cs2 where c2: "\<forall>q. applyDynamoDBFilters P q fs2 ft = Inr (q\<lparr>conditions := conditions q @ cs2\<rparr>)"
    by (auto simp: applyDynamoDBFilters_append)
  have all: "filterRecords P m filters ft = exec P \<lparr>target = m, conditions = cs1 @ cs @ cs2\<rparr>"
    using sp c1 c c2 by (simp add: filterRecords_def applyDynamoDBFilters_append scan_def)
  have one: "filterRecords P m [f] ft = exec P \<lparr>target = m, conditions = cs\<rparr>"
    using c by (simp add: filterRecords_def scan_def)
  have av: "failure m = None" using assms(1) all by (cases "failure m") (simp_all add: exec_def)
  have "rs = filter (\<lambda>r. list_all (\<lambda>c. holds P c r) (cs1 @ cs @ cs2)) (contents m)"
    using assms(1) all av by (simp add: exec_available)
  then have "set rs \<subseteq> set (filter (\<lambda>r. list_all (\<lambda>c. holds P c r) cs) (contents m))"
    by auto
  then show ?thesis using one av by (simp add: exec_available)
qed


subsection \<open>The claims about filtering and processQuery\<close>

text \<open>
  C1. \<^verbatim>\<open>processQuery\<close> returns what the sequence of the specification returns: the
  records of the store that pass the filter conditions, sorted by \<^verbatim>\<open>applySorting\<close>,
  then cut by \<^verbatim>\<open>applyPagination\<close>; an error of the first step is the result. The
  first step keeps, of the items of the store, those that satisfy every condition built
  from the filter strings, unless a filter string raises or the store rejects the scan.
\<close>

theorem processQuery_is_pipeline:
  "processQuery P m filters fieldTypes sortSpec pageNo limit =
     (case filterRecords P m filters fieldTypes of
        Inl e \<Rightarrow> Inl e
      | Inr filtered \<Rightarrow> Inr (applyPagination (applySorting P filtered sortSpec) pageNo limit))
   \<and> filterRecords P m filters fieldTypes =
     (case applyDynamoDBFilters P (scan m) filters fieldTypes of
        Inl e \<Rightarrow> Inl e
      | Inr q \<Rightarrow>
          (case failure m of
             Some e \<Rightarrow> Inl e
           | None \<Rightarrow> Inr (filter (\<lambda>r. list_all (\<lambda>c. holds P c r) (conditions q)) (contents m))))"
proof
  show "processQuery P m filters fieldTypes sortSpec pageNo limit =
     (case filterRecords P m filters fieldTypes of
        Inl e \<Rightarrow> Inl e
      | Inr filtered \<Rightarrow> Inr (applyPagination (applySorting P filtered sortSpec) pageNo limit))"
    by (simp add: processQuery_unguarded filterRecords_def split: sum.splits)
  from filterRecords_cases [of P m filters fieldTypes]
  show "filterRecords P m filters fieldTypes =
     (case applyDynamoDBFilters P (scan m) filters fieldTypes of
        Inl e \<Rightarrow> Inl e
      | Inr q \<Rightarrow>
          (case failure m of
             Some e \<Rightarrow> Inl e
           | None \<Rightarrow> Inr (filter (\<lambda>r. list_all (\<lambda>c. holds P c r) (conditions q)) (contents m))))"
  proof (elim disjE exE conjE)
    fix e
    assume "applyDynamoDBFilters P (scan m) filters fieldTypes = Inl e"
      and "filterRecords P m filters fieldTypes = Inl e"
    then show ?thesis by simp
  next
    fix cs
    assume "applyDynamoDBFilters P (scan m) filters fieldTypes = Inr \<lparr>target = m, conditions = cs\<rparr>"
      and "filterRecords P m filters fieldTypes = exec P \<lparr>target = m, conditions = cs\<rparr>"
    then show ?thesis by (cases "failure m") (simp_all add: exec_def)
  qed
qed

theorem processQuery_is_pipeline_witness:
  "filterRecords samplePlatform sampleStore [''status||eq||1''] sampleTypes
     = Inr [[(''id'', VNum (Fin 1)), (''status'', VNum (Fin 1))],
            [(''id'', VNum (Fin 3)), (''status'', VNum (Fin 1))]]
   \<and> processQuery samplePlatform sampleStore [''status||eq||1''] sampleTypes ''id,DESC'' 1 10
     = Inr \<lparr>data = [[(''id'', VNum (Fin 3)), (''status'', VNum (Fin 1))],
                    [(''id'', VNum (Fin 1)), (''status'', VNum (Fin 1))]],
            count = 2, total = 2, page = 1, pageCount = Fin 1\<rparr>"
proof -
  have f: "filterRecords samplePlatform sampleStore [''status||eq||1''] sampleTypes
     = Inr [[(''id'', VNum (Fin 1)), (''status'', VNum (Fin 1))],
            [(''id'', VNum (Fin 3)), (''status'', VNum (Fin 1))]]"
    unfolding sampleStore_def sampleOrders_def sampleTypes_def by code_simp
  have s: "applySorting samplePlatform
             [[(''id'', VNum (Fin 1)), (''status'', VNum (Fin 1))],
              [(''id'', VNum (Fin 3)), (''status'', VNum (Fin 1))]] ''id,DESC''
           = [[(''id'', VNum (Fin 3)), (''status'', VNum (Fin 1))],
              [(''id'', VNum (Fin 1)), (''status'', VNum (Fin 1))]]"
    by code_simp
  have p: "applyPagination
             [[(''id'', VNum (Fin 3)), (''status'', VNum (Fin 1))],
              [(''id'', VNum (Fin 1)), (''status'', VNum (Fin 1))]] 1 10
           = \<lparr>data = [[(''id'', VNum (Fin 3)), (''status'', VNum (Fin 1))],
                       [(''id'', VNum (Fin 1)), (''status'', VNum (Fin 1))]],
               count = 2, total = 2, page = 1, pageCount = Fin 1\<rparr>"
    by code_simp
  show ?thesis
    using conjunct1 [OF processQuery_is_pipeline
            [of samplePlatform sampleStore "[''status||eq||1'']" sampleTypes "''id,DESC''" 1 10]]
    unfolding f by (simp add: s p f)
qed

text \<open>
  C3. The claim asks that a \<^verbatim>\<open>starts\<close> condition keeps exactly the records whose
  value begins with the filter value, and an \<^verbatim>\<open>ends\<close> condition those whose value
  ends with it. \<^verbatim>\<open>applyDynamoDBFilters\<close> has no case for either operator: the
  conditions fall into the default case and every record is returned, here also the
  record named Sarah, whose name neither begins with Jo nor ends with hn.
\<close>

theorem starts_ends_not_applied:
  "processQuery samplePlatform sampleNames [''name||starts||Jo''] sampleTypes ''name,ASC'' 1 10
     = Inr \<lparr>data = [[(''name'', VStr ''John'')], [(''name'', VStr ''Sarah'')]],
            count = 2, total = 2, page = 1, pageCount = Fin 1\<rparr>
   \<and> processQuery samplePlatform sampleNames [''name||ends||hn''] sampleTypes ''name,ASC'' 1 10
     = Inr \<lparr>data = [[(''name'', VStr ''John'')], [(''name'', VStr ''Sarah'')]],
            count = 2, total = 2, page = 1, pageCount = Fin 1\<rparr>
   \<and> \<not> prefix ''Jo'' ''Sarah'' \<and> \<not> suffix ''hn'' ''Sarah''"
proof -
  have 1: "processQuery samplePlatform sampleNames [''name||starts||Jo''] sampleTypes ''name,ASC'' 1 10
     = Inr \<lparr>data = [[(''name'', VStr ''John'')], [(''name'', VStr ''Sarah'')]],
            count = 2, total = 2, page = 1, pageCount = Fin 1\<rparr>"
    unfolding sampleNames_def sampleTypes_def by code_simp
  have 2: "processQuery samplePlatform sampleNames [''name||ends||hn''] sampleTypes ''name,ASC'' 1 10
     = Inr \<lparr>data = [[(''name'', VStr ''John'')], [(''name'', VStr ''Sarah'')]],
            count = 2, total = 2, page = 1, pageCount = Fin 1\<rparr>"
    unfolding sampleNames_def sampleTypes_def by code_simp
  have 3: "\<not> prefix ''Jo'' ''Sarah''" by simp
  have 4: "\<not> suffix ''hn'' ''Sarah''" by (simp add: suffix_to_prefix)
  show ?thesis using 1 2 3 4 by blast
qed

text \<open>
  C6. On a store that answers, filtering by two conditions is filtering by the first
  and then filtering the result by the second; and every record of a filtered result is
  in the result of each single condition of the list.
\<close>

theorem and_composition:
  assumes "failure m = None"
  shows "filterRecords P m [c1, c2] fieldTypes =
           (case filterRecords P m [c1] fieldTypes of
              Inl e \<Rightarrow> Inl e
            | Inr rs \<Rightarrow> filterRecords P (m\<lparr>contents := rs\<rparr>) [c2] fieldTypes)
       \<and> (\<forall>filters rs f. filterRecords P m filters fieldTypes = Inr rs \<and> f \<in> set filters
            \<longrightarrow> (\<exists>rs1. filterRecords P m [f] fieldTypes = Inr rs1 \<and> set rs \<subseteq> set rs1))"
  using two_conditions_compose [OF assms] each_condition_holds by blast

theorem and_composition_witness:
  "failure sampleStore = None
   \<and> filterRecords samplePlatform sampleStore [''status||eq||1'', ''id||gt||1''] sampleTypes
       = Inr [[(''id'', VNum (Fin 3)), (''status'', VNum (Fin 1))]]
   \<and> filterRecords samplePlatform sampleStore [''status||eq||1''] sampleTypes
       = Inr [[(''id'', VNum (Fin 1)), (''status'', VNum (Fin 1))],
              [(''id'', VNum (Fin 3)), (''status'', VNum (Fin 1))]]
   \<and> filterRecords samplePlatform
        (sampleStore\<lparr>contents := [[(''id'', VNum (Fin 1)), (''status'', VNum (Fin 1))],
                                 [(''id'', VNum (Fin 3)), (''status'', VNum (Fin 1))]]\<rparr>)
        [''id||gt||1''] sampleTypes
       = Inr [[(''id'', VNum (Fin 3)), (''status'', VNum (Fin 1))]]"
proof -
  have h: "failure sampleStore = None" by (simp add: sampleStore_def)
  have f: "filterRecords samplePlatform sampleStore [''status||eq||1''] sampleTypes
     = Inr [[(''id'', VNum (Fin 1)), (''status'', VNum (Fin 1))],
            [(''id'', VNum (Fin 3)), (''status'', VNum (Fin 1))]]"
    unfolding sampleStore_def sampleOrders_def sampleTypes_def by code_simp
  have g: "filterRecords samplePlatform
        (sampleStore\<lparr>contents := [[(''id'', VNum (Fin 1)), (''status'', VNum (Fin 1))],
                                 [(''id'', VNum (Fin 3)), (''status'', VNum (Fin 1))]]\<rparr>)
        [''id||gt||1''] sampleTypes
       = Inr [[(''id'', VNum (Fin 3)), (''status'', VNum (Fin 1))]]"
    unfolding sampleStore_def sampleOrders_def sampleTypes_def by code_simp
  show ?thesis
    using and_composition [OF h, of samplePlatform "''status||eq||1''" "''id||gt||1''" sampleTypes]
    by (simp add: h f g)
qed

text \<open>
  C8. A filter whose operator is none of the ten that \<^verbatim>\<open>applyDynamoDBFilters\<close> has a
  case for (also a filter string without operator) leaves the scan query as it is and
  raises nothing: the query answers as it does without that filter.
\<close>

theorem unknown_operator_dropped:
  assumes "filterOperator f \<notin> Some ` set recognized"
  shows "applyFilter P fieldTypes q f = Inr q
       \<and> processQuery P m (fs1 @ f # fs2) fieldTypes sortSpec pageNo limit
           = processQuery P m (fs1 @ fs2) fieldTypes sortSpec pageNo limit"
  using assms processQuery_drop [of P fieldTypes f m fs1 fs2 sortSpec pageNo limit]
  by (simp add: applyFilter_unrecognized)

theorem unknown_operator_dropped_witness:
  "filterOperator ''status||foo||1'' = Some ''foo'' \<and> Some ''foo'' \<notin> Some ` set recognized
   \<and> processQuery samplePlatform sampleStore ([''status||eq||1''] @ ''status||foo||1'' # [])
        sampleTypes ''id,DESC'' 1 10
     = processQuery samplePlatform sampleStore ([''status||eq||1''] @ []) sampleTypes ''id,DESC'' 1 10"
proof -
  have o: "filterOperator ''status||foo||1'' = Some ''foo''" by code_simp
  have n: "filterOperator ''status||foo||1'' \<notin> Some ` set recognized"
    unfolding o by (simp add: recognized_def)
  show ?thesis
    using unknown_operator_dropped
            [OF n, of samplePlatform sampleTypes "scan sampleStore" sampleStore
               "[''status||eq||1'']" "[]" "''id,DESC''" 1 10]
      o n by simp
qed

text \<open>
  C9. When the scan is reached and the store rejects it, \<^verbatim>\<open>processQuery\<close> returns
  the store's error as it is; on a failing store it never returns a page; and a page
  that it returns is the page of all the records that pass the filters, sorted.
\<close>

theorem store_failure_propagates:
  "(\<forall>e q. failure m = Some e \<and> applyDynamoDBFilters P (scan m) filters fieldTypes = Inr q
        \<longrightarrow> processQuery P m filters fieldTypes sortSpec pageNo limit = Inl e)
   \<and> (\<forall>e. failure m = Some e
        \<longrightarrow> (\<exists>e'. processQuery P m filters fieldTypes sortSpec pageNo limit = Inl e'))
   \<and> (\<forall>r. processQuery P m filters fieldTypes sortSpec pageNo limit = Inr r
        \<longrightarrow> failure m = None
          \<and> (\<exists>allData. filterRecords P m filters fieldTypes = Inr allData
                \<and> r = applyPagination (applySorting P allData sortSpec) pageNo limit))"
proof -
  have pq: "processQuery P m filters fieldTypes sortSpec pageNo limit =
     (case filterRecords P m filters fieldTypes of
        Inl e \<Rightarrow> Inl e
      | Inr filtered \<Rightarrow> Inr (applyPagination (applySorting P filtered sortSpec) pageNo limit))"
    by (simp add: processQuery_unguarded filterRecords_def split: sum.splits)
  from filterRecords_cases [of P m filters fieldTypes] show ?thesis
  proof (elim disjE exE conjE)
    fix e
    assume "applyDynamoDBFilters P (scan m) filters fieldTypes = Inl e"
      and "filterRecords P m filters fieldTypes = Inl e"
    then show ?thesis unfolding pq by simp
  next
    fix cs
    assume b: "applyDynamoDBFilters P (scan m) filters fieldTypes = Inr \<lparr>target = m, conditions = cs\<rparr>"
      and f: "filterRecords P m filters fieldTypes = exec P \<lparr>target = m, conditions = cs\<rparr>"
    show ?thesis
    proof (cases "failure m")
      case None
      then show ?thesis unfolding pq f by (simp add: exec_available)
    next
      case (Some e)
      then show ?thesis unfolding pq f by (simp add: exec_failing)
    qed
  qed
qed

theorem store_failure_propagates_witness:
  "failure failingStore = Some (StoreFailure ''ThrottlingException'')
   \<and> applyDynamoDBFilters samplePlatform (scan failingStore) [''status||eq||1''] sampleTypes
       = Inr \<lparr>target = failingStore, conditions = [CEq ''status'' (VNum (Fin 1))]\<rparr>
   \<and> processQuery samplePlatform failingStore [''status||eq||1''] sampleTypes ''id,DESC'' 1 10
       = Inl (StoreFailure ''ThrottlingException'')"
proof -
  have h: "failure failingStore = Some (StoreFailure ''ThrottlingException'')"
    by (simp add: failingStore_def)
  have v: "filterField ''status||eq||1'' = ''status''"
    "filterOperator ''status||eq||1'' = Some ''eq''"
    "filterValue ''status||eq||1'' = Some ''1''"
    "readDecimal ''1'' = Fin 1"
    by code_simp+
  have b: "applyDynamoDBFilters samplePlatform (scan failingStore) [''status||eq||1''] sampleTypes
       = Inr \<lparr>target = failingStore, conditions = [CEq ''status'' (VNum (Fin 1))]\<rparr>"
    by (simp add: applyFilter_def v converted_def convertFilterValue_def sampleTypes_def
          samplePlatform_def chain_def scan_def)
  show ?thesis
    using store_failure_propagates
            [of failingStore samplePlatform "[''status||eq||1'']" sampleTypes "''id,DESC''" 1 10]
      h b by blast
qed

text \<open>
  C10. A \<^verbatim>\<open>between\<close> filter whose value has no comma leaves the scan query as it is
  and raises nothing. When the value has a comma, the condition chained onto the query
  has as end points the first two pieces of the value, each URI-decoded and taken as a
  string, whatever the field types are (provided every piece of the value decodes).
\<close>

theorem between_condition:
  assumes "filterOperator f = Some ''between''" and "filterValue f = Some v"
  shows "(CHR '','' \<notin> set v \<longrightarrow>
            applyFilter P fieldTypes q f = Inr q
          \<and> processQuery P m (fs1 @ f # fs2) fieldTypes sortSpec pageNo limit
              = processQuery P m (fs1 @ fs2) fieldTypes sortSpec pageNo limit)
       \<and> (CHR '','' \<in> set v \<longrightarrow>
            (\<exists>p0 p1 ps. split_comma [] v = p0 # p1 # ps
               \<and> (\<forall>start stop.
                     decodeURIComponent P p0 = Some start \<and> decodeURIComponent P p1 = Some stop
                     \<and> (\<forall>p\<in>set ps. decodeURIComponent P p \<noteq> None)
                     \<longrightarrow> (\<forall>otherTypes. applyFilter P otherTypes q f
                            = Inr (chain q (CBetween (filterField f) (VStr start) (VStr stop)))))))"
proof (intro conjI impI)
  assume nc: "CHR '','' \<notin> set v"
  have d: "applyFilter P fieldTypes q' f = Inr q'" for q'
    using assms nc by (simp add: applyFilter_between)
  then show "applyFilter P fieldTypes q f = Inr q" by simp
  from d show "processQuery P m (fs1 @ f # fs2) fieldTypes sortSpec pageNo limit
          = processQuery P m (fs1 @ fs2) fieldTypes sortSpec pageNo limit"
    by (intro processQuery_drop) simp
next
  assume c: "CHR '','' \<in> set v"
  obtain p0 p1 ps where sp: "split_comma [] v = p0 # p1 # ps"
    using split_comma_two [OF c, of "[]"] by blast
  have "applyFilter P otherTypes q f
          = Inr (chain q (CBetween (filterField f) (VStr start) (VStr stop)))"
    if d0: "decodeURIComponent P p0 = Some start" and d1: "decodeURIComponent P p1 = Some stop"
      and dps: "\<forall>p\<in>set ps. decodeURIComponent P p \<noteq> None" for start stop otherTypes
  proof -
    obtain ds where "those (map (decodeURIComponent P) ps) = Some ds"
      using those_all_Some [OF dps] by blast
    with d0 d1 sp
    have "those (map (decodeURIComponent P) (split_comma [] v)) = Some (start # stop # ds)"
      by simp
    with assms c show ?thesis
      by (simp add: applyFilter_between nth_opt_def optStr_def)
  qed
  with sp show "\<exists>p0 p1 ps. split_comma [] v = p0 # p1 # ps
               \<and> (\<forall>start stop.
                     decodeURIComponent P p0 = Some start \<and> decodeURIComponent P p1 = Some stop
                     \<and> (\<forall>p\<in>set ps. decodeURIComponent P p \<noteq> None)
                     \<longrightarrow> (\<forall>otherTypes. applyFilter P otherTypes q f
                            = Inr (chain q (CBetween (filterField f) (VStr start) (VStr stop)))))"
    by blast
qed

theorem between_condition_witness:
  "filterOperator ''createdAt||between||2024-01-01'' = Some ''between''
   \<and> filterValue ''createdAt||between||2024-01-01'' = Some ''2024-01-01''
   \<and> CHR '','' \<notin> set ''2024-01-01''
   \<and> applyFilter samplePlatform sampleTypes (scan sampleStore) ''createdAt||between||2024-01-01''
       = Inr (scan sampleStore)
   \<and> filterOperator ''id||between||1%2D1,2'' = Some ''between''
   \<and> filterValue ''id||between||1%2D1,2'' = Some ''1%2D1,2''
   \<and> CHR '','' \<in> set ''1%2D1,2''
   \<and> split_comma [] ''1%2D1,2'' = [''1%2D1'', ''2'']
   \<and> decodeURIComponent samplePlatform ''1%2D1'' = Some ''1-1''
   \<and> decodeURIComponent samplePlatform ''2'' = Some ''2''
   \<and> applyFilter samplePlatform sampleTypes (scan sampleStore) ''id||between||1%2D1,2''
       = Inr (chain (scan sampleStore) (CBetween ''id'' (VStr ''1-1'') (VStr ''2'')))"
proof -
  have o1: "filterOperator ''createdAt||between||2024-01-01'' = Some ''between''"
    and v1: "filterValue ''createdAt||between||2024-01-01'' = Some ''2024-01-01''"
    and o2: "filterOperator ''id||between||1%2D1,2'' = Some ''between''"
    and v2: "filterValue ''id||between||1%2D1,2'' = Some ''1%2D1,2''"
    and f2: "filterField ''id||between||1%2D1,2'' = ''id''"
    and sp: "split_comma [] ''1%2D1,2'' = [''1%2D1'', ''2'']"
    and b0: "decodeBytes ''1%2D1'' = Some ''1-1''"
    and b1: "decodeBytes ''2'' = Some ''2''"
    by code_simp+
  have n: "CHR '','' \<notin> set ''2024-01-01''" and c: "CHR '','' \<in> set ''1%2D1,2''"
    by simp_all
  have d0: "decodeURIComponent samplePlatform ''1%2D1'' = Some ''1-1''"
    and d1: "decodeURIComponent samplePlatform ''2'' = Some ''2''"
    using b0 b1 by (simp_all add: samplePlatform_def)
  have r1: "applyFilter samplePlatform sampleTypes (scan sampleStore)
              ''createdAt||between||2024-01-01'' = Inr (scan sampleStore)"
    using between_condition [OF o1 v1, of samplePlatform sampleTypes "scan sampleStore"] n
    by blast
  have r2: "applyFilter samplePlatform sampleTypes (scan sampleStore) ''id||between||1%2D1,2''
       = Inr (chain (scan sampleStore) (CBetween ''id'' (VStr ''1-1'') (VStr ''2'')))"
  proof -
    note bc = between_condition
                [OF o2 v2, of samplePlatform sampleTypes "scan sampleStore" sampleStore
                   "[]" "[]" "[]" 1 1]
    from mp [OF conjunct2 [OF bc] c]
    obtain p0 p1 ps where s: "split_comma [] ''1%2D1,2'' = p0 # p1 # ps"
      and i: "\<forall>start stop.
                decodeURIComponent samplePlatform p0 = Some start
                \<and> decodeURIComponent samplePlatform p1 = Some stop
                \<and> (\<forall>p\<in>set ps. decodeURIComponent samplePlatform p \<noteq> None)
                \<longrightarrow> (\<forall>otherTypes.
                      applyFilter samplePlatform otherTypes (scan sampleStore) ''id||between||1%2D1,2''
                      = Inr (chain (scan sampleStore)
                               (CBetween (filterField ''id||between||1%2D1,2'')
                                  (VStr start) (VStr stop))))"
      by blast
    from s sp have e: "p0 = ''1%2D1''" "p1 = ''2''" "ps = []" by simp_all
    have "\<forall>p\<in>set ps. decodeURIComponent samplePlatform p \<noteq> None" unfolding e by simp
    with i d0 d1 show ?thesis unfolding e f2 by blast
  qed
  show ?thesis using o1 v1 n r1 o2 v2 c sp d0 d1 r2 by blast
qed

end
